theory Spec2Isabelle
  imports Main
begin

section \<open>Characters and strings\<close>

text \<open>
  Source text is a \<^typ>\<open>string\<close>; a \<^typ>\<open>char\<close> stands for one code point below 256.
  The classes \<open>\s\<close> and \<open>\w\<close> of Python's \<open>re\<close> on \<open>str\<close> patterns, and the white
  space of \<open>str.strip\<close>, follow the Unicode tables; below 256 these are the sets written out
  here.
\<close>

definition code :: "char \<Rightarrow> nat" where
  "code c = of_char c"

definition is_upper :: "char \<Rightarrow> bool" where
  "is_upper c = (65 \<le> code c \<and> code c \<le> 90)"

definition is_lower :: "char \<Rightarrow> bool" where
  "is_lower c = (97 \<le> code c \<and> code c \<le> 122)"

definition is_digit :: "char \<Rightarrow> bool" where
  "is_digit c = (48 \<le> code c \<and> code c \<le> 57)"

definition is_alpha :: "char \<Rightarrow> bool" where
  "is_alpha c = (is_upper c \<or> is_lower c)"

definition is_ident :: "char \<Rightarrow> bool" where
  \<comment> \<open>\<open>[a-zA-Z0-9_]\<close>\<close>
  "is_ident c = (is_alpha c \<or> is_digit c \<or> c = CHR ''_'')"

definition is_space :: "char \<Rightarrow> bool" where
  \<comment> \<open>\<open>\s\<close>, and the characters \<open>str.strip()\<close> removes\<close>
  "is_space c = ((9 \<le> code c \<and> code c \<le> 13) \<or> (28 \<le> code c \<and> code c \<le> 32)
     \<or> code c = 133 \<or> code c = 160)"

definition is_word :: "char \<Rightarrow> bool" where
  \<comment> \<open>\<open>\w\<close>: alphanumeric or underscore\<close>
  "is_word c = (is_ident c \<or> code c = 170 \<or> code c = 178 \<or> code c = 179 \<or> code c = 181
     \<or> code c = 185 \<or> code c = 186 \<or> (188 \<le> code c \<and> code c \<le> 190)
     \<or> (192 \<le> code c \<and> code c \<le> 214) \<or> (216 \<le> code c \<and> code c \<le> 246)
     \<or> 248 \<le> code c)"

definition lower_char :: "char \<Rightarrow> char" where
  "lower_char c = (if is_upper c then char_of (code c + 32) else c)"

definition strip :: "string \<Rightarrow> string" where
  "strip s = rev (dropWhile is_space (rev (dropWhile is_space s)))"

fun split_on :: "char \<Rightarrow> string \<Rightarrow> string list" where
  \<comment> \<open>\<open>s.split(c)\<close> for a one-character separator\<close>
  "split_on c [] = [[]]"
| "split_on c (x # xs) =
     (if x = c then [] # split_on c xs
      else (case split_on c xs of [] \<Rightarrow> [[x]] | p # ps \<Rightarrow> (x # p) # ps))"

fun join :: "string \<Rightarrow> string list \<Rightarrow> string" where
  "join sep [] = []"
| "join sep [x] = x"
| "join sep (x # y # ys) = x @ sep @ join sep (y # ys)"

definition split1 :: "char \<Rightarrow> string \<Rightarrow> string \<times> string" where
  \<comment> \<open>\<open>a, b = s.split(c, 1)\<close> for an \<open>s\<close> that contains \<open>c\<close>\<close>
  "split1 c s = (takeWhile (\<lambda>x. x \<noteq> c) s, drop 1 (dropWhile (\<lambda>x. x \<noteq> c) s))"

fun starts_with :: "string \<Rightarrow> string \<Rightarrow> bool" where
  \<comment> \<open>\<open>s.startswith(p)\<close>, the prefix first\<close>
  "starts_with [] s = True"
| "starts_with (p # ps) [] = False"
| "starts_with (p # ps) (x # xs) = (p = x \<and> starts_with ps xs)"

definition ends_with :: "string \<Rightarrow> string \<Rightarrow> bool" where
  "ends_with p s = starts_with (rev p) (rev s)"

fun contains :: "string \<Rightarrow> string \<Rightarrow> bool" where
  \<comment> \<open>\<open>p in s\<close>\<close>
  "contains p [] = (p = [])"
| "contains p (x # xs) = (starts_with p (x # xs) \<or> contains p xs)"

fun replace_str :: "string \<Rightarrow> string \<Rightarrow> string \<Rightarrow> string" where
  \<comment> \<open>\<open>s.replace(old, new)\<close> for a non-empty \<open>old\<close>, which every call site passes\<close>
  "replace_str old new [] = []"
| "replace_str old new (x # xs) =
     (if old \<noteq> [] \<and> starts_with old (x # xs)
      then new @ replace_str old new (drop (length old - 1) xs)
      else x # replace_str old new xs)"

section \<open>Regular expressions\<close>

text \<open>
  The patterns of the source use literals, character classes, greedy and lazy repetition of
  a character class, \<open>\b\<close>, capturing groups that do not nest, an optional literal and
  alternations of short sequences. A pattern is a list of nodes. Matching is backtracking
  search: \<open>m_nodes\<close> lists every state in which a match of the pattern can end, in the order
  the search of \<open>re\<close> tries them (more repetitions first for a greedy operator, fewer first
  for a lazy one, alternatives left to right), so the head of the list is the match \<open>re\<close>
  reports.
\<close>

datatype cclass =
    Upper       \<comment> \<open>\<open>[A-Z]\<close>\<close>
  | Alpha       \<comment> \<open>\<open>[a-zA-Z]\<close>\<close>
  | Ident       \<comment> \<open>\<open>[a-zA-Z0-9_]\<close>\<close>
  | Word        \<comment> \<open>\<open>\w\<close>\<close>
  | Space       \<comment> \<open>\<open>\s\<close>\<close>
  | Any         \<comment> \<open>\<open>.\<close> under DOTALL\<close>
  | OneOf string   \<comment> \<open>\<open>[...]\<close> of characters that are not letters\<close>
  | NoneOf string  \<comment> \<open>\<open>[^...]\<close> of characters that are not letters\<close>

fun cclass_matches :: "bool \<Rightarrow> cclass \<Rightarrow> char \<Rightarrow> bool" where
  \<comment> \<open>the flag is IGNORECASE\<close>
  "cclass_matches ic Upper c = (if ic then is_alpha c else is_upper c)"
| "cclass_matches ic Alpha c = is_alpha c"
| "cclass_matches ic Ident c = is_ident c"
| "cclass_matches ic Word c = is_word c"
| "cclass_matches ic Space c = is_space c"
| "cclass_matches ic Any c = True"
| "cclass_matches ic (OneOf cs) c = (c \<in> set cs)"
| "cclass_matches ic (NoneOf cs) c = (c \<notin> set cs)"

datatype atom =
    Lit string      \<comment> \<open>a literal string\<close>
  | One cclass
  | Star cclass     \<comment> \<open>\<open>c*\<close>\<close>
  | Plus cclass     \<comment> \<open>\<open>c+\<close>\<close>
  | LazyStar cclass \<comment> \<open>\<open>c*?\<close>\<close>
  | WordB           \<comment> \<open>\<open>\b\<close>\<close>
  | GOpen           \<comment> \<open>\<open>(\<close>\<close>
  | GClose          \<comment> \<open>\<open>)\<close>\<close>

datatype node =
    A atom
  | Opt "atom list"        \<comment> \<open>\<open>(?:...)?\<close>\<close>
  | Alt "atom list list"   \<comment> \<open>\<open>(?:...|...)\<close>\<close>

record mstate =
  prev :: "char option"   \<comment> \<open>the character before the position\<close>
  rest :: string          \<comment> \<open>the text from the position on\<close>
  mark :: string          \<comment> \<open>the text from the last \<open>(\<close> on\<close>
  caps :: "string list"   \<comment> \<open>the groups closed so far\<close>

definition char_eq :: "bool \<Rightarrow> char \<Rightarrow> char \<Rightarrow> bool" where
  "char_eq ic a b = (if ic then lower_char a = lower_char b else a = b)"

fun match_lit :: "bool \<Rightarrow> string \<Rightarrow> char option \<Rightarrow> string \<Rightarrow> (char option \<times> string) option" where
  "match_lit ic [] p s = Some (p, s)"
| "match_lit ic (l # ls) p [] = None"
| "match_lit ic (l # ls) p (x # xs) = (if char_eq ic l x then match_lit ic ls (Some x) xs else None)"

fun star_pos :: "bool \<Rightarrow> cclass \<Rightarrow> char option \<Rightarrow> string \<Rightarrow> (char option \<times> string) list" where
  "star_pos ic c p [] = [(p, [])]"
| "star_pos ic c p (x # xs) =
     (if cclass_matches ic c x then star_pos ic c (Some x) xs @ [(p, x # xs)] else [(p, x # xs)])"

fun lazy_pos :: "bool \<Rightarrow> cclass \<Rightarrow> char option \<Rightarrow> string \<Rightarrow> (char option \<times> string) list" where
  "lazy_pos ic c p [] = [(p, [])]"
| "lazy_pos ic c p (x # xs) =
     (p, x # xs) # (if cclass_matches ic c x then lazy_pos ic c (Some x) xs else [])"

definition at_pos :: "mstate \<Rightarrow> char option \<times> string \<Rightarrow> mstate" where
  "at_pos st pr = st\<lparr>prev := fst pr, rest := snd pr\<rparr>"

definition word_opt :: "char option \<Rightarrow> bool" where
  "word_opt p = (case p of None \<Rightarrow> False | Some c \<Rightarrow> is_word c)"

definition next_char :: "string \<Rightarrow> char option" where
  "next_char s = (case s of [] \<Rightarrow> None | x # _ \<Rightarrow> Some x)"

fun m_atom :: "bool \<Rightarrow> atom \<Rightarrow> mstate \<Rightarrow> mstate list" where
  "m_atom ic (Lit l) st =
     (case match_lit ic l (prev st) (rest st) of None \<Rightarrow> [] | Some pr \<Rightarrow> [at_pos st pr])"
| "m_atom ic (One c) st =
     (case rest st of [] \<Rightarrow> []
      | x # xs \<Rightarrow> if cclass_matches ic c x then [at_pos st (Some x, xs)] else [])"
| "m_atom ic (Star c) st = map (at_pos st) (star_pos ic c (prev st) (rest st))"
| "m_atom ic (Plus c) st =
     (case rest st of [] \<Rightarrow> []
      | x # xs \<Rightarrow> if cclass_matches ic c x then map (at_pos st) (star_pos ic c (Some x) xs) else [])"
| "m_atom ic (LazyStar c) st = map (at_pos st) (lazy_pos ic c (prev st) (rest st))"
| "m_atom ic WordB st =
     (if word_opt (prev st) \<noteq> word_opt (next_char (rest st)) then [st] else [])"
| "m_atom ic GOpen st = [st\<lparr>mark := rest st\<rparr>]"
| "m_atom ic GClose st =
     [st\<lparr>caps := caps st @ [take (length (mark st) - length (rest st)) (mark st)]\<rparr>]"

fun m_atoms :: "bool \<Rightarrow> atom list \<Rightarrow> mstate \<Rightarrow> mstate list" where
  "m_atoms ic [] st = [st]"
| "m_atoms ic (a # as) st = concat (map (m_atoms ic as) (m_atom ic a st))"

fun m_node :: "bool \<Rightarrow> node \<Rightarrow> mstate \<Rightarrow> mstate list" where
  "m_node ic (A a) st = m_atom ic a st"
| "m_node ic (Opt as) st = m_atoms ic as st @ [st]"
| "m_node ic (Alt alts) st = concat (map (\<lambda>as. m_atoms ic as st) alts)"

fun m_nodes :: "bool \<Rightarrow> node list \<Rightarrow> mstate \<Rightarrow> mstate list" where
  "m_nodes ic [] st = [st]"
| "m_nodes ic (n # ns) st = concat (map (m_nodes ic ns) (m_node ic n st))"

record regex =
  ignorecase :: bool
  nodes :: "node list"

definition match_at :: "regex \<Rightarrow> char option \<Rightarrow> string \<Rightarrow> mstate option" where
  \<comment> \<open>the match that starts at this position, if there is one\<close>
  "match_at re p s =
     (case m_nodes (ignorecase re) (nodes re) \<lparr>prev = p, rest = s, mark = s, caps = []\<rparr> of
        [] \<Rightarrow> None | st # _ \<Rightarrow> Some st)"

fun re_search :: "regex \<Rightarrow> char option \<Rightarrow> string \<Rightarrow> string list option" where
  \<comment> \<open>\<open>re.search\<close>: the groups of the leftmost match\<close>
  "re_search re p [] = map_option caps (match_at re p [])"
| "re_search re p (x # xs) =
     (case match_at re p (x # xs) of Some st \<Rightarrow> Some (caps st) | None \<Rightarrow> re_search re (Some x) xs)"

datatype rmatch = MStr string | MTuple "string list"

definition match_value :: "string \<Rightarrow> mstate \<Rightarrow> rmatch" where
  \<comment> \<open>what \<open>re.findall\<close> reports for one match: the whole match without groups, the group if
     there is one, a tuple of the groups otherwise\<close>
  "match_value s st =
     (case caps st of [] \<Rightarrow> MStr (take (length s - length (rest st)) s)
      | [g] \<Rightarrow> MStr g
      | gs \<Rightarrow> MTuple gs)"

fun findall_from :: "regex \<Rightarrow> char option \<Rightarrow> string \<Rightarrow> nat \<Rightarrow> rmatch list" where
  \<comment> \<open>the last argument counts the characters the previous match still covers; no pattern
     of the source matches the empty string\<close>
  "findall_from re p [] k =
     (if k = 0 then (case match_at re p [] of None \<Rightarrow> [] | Some st \<Rightarrow> [match_value [] st]) else [])"
| "findall_from re p (x # xs) k =
     (if 0 < k then findall_from re (Some x) xs (k - 1)
      else (case match_at re p (x # xs) of
              None \<Rightarrow> findall_from re (Some x) xs 0
            | Some st \<Rightarrow> match_value (x # xs) st
                # findall_from re (Some x) xs (length xs - length (rest st))))"

definition findall :: "regex \<Rightarrow> string \<Rightarrow> rmatch list" where
  "findall re s = findall_from re None s 0"

definition strs :: "rmatch list \<Rightarrow> string list" where
  \<comment> \<open>the matches of a pattern with at most one group are strings\<close>
  "strs ms = concat (map (\<lambda>m. case m of MStr s \<Rightarrow> [s] | MTuple _ \<Rightarrow> []) ms)"

section \<open>The Source Dependency Extractor\<close>

subsection \<open>The pattern tables of \<open>extract_comprehensive_dependencies\<close>\<close>

definition quote_chars :: string where
  \<comment> \<open>\<open>[\'"]\<close>\<close>
  "quote_chars = [CHR 0x27, CHR 0x22]"

definition object_group :: "node list" where
  \<comment> \<open>\<open>([A-Z][a-zA-Z0-9_]*(?:__c)?)\<close>\<close>
  "object_group = [A GOpen, A (One Upper), A (Star Ident), Opt [Lit ''__c''], A GClose]"

definition class_group :: "node list" where
  \<comment> \<open>\<open>([A-Z][a-zA-Z0-9_]+)\<close>\<close>
  "class_group = [A GOpen, A (One Upper), A (Plus Ident), A GClose]"

definition label_group :: "node list" where
  \<comment> \<open>\<open>([A-Z][a-zA-Z0-9_]*)\<close>\<close>
  "label_group = [A GOpen, A (One Upper), A (Star Ident), A GClose]"

definition quoted_group :: "node list" where
  \<comment> \<open>\<open>[\'"]([^\'"]+)[\'"]\<close>\<close>
  "quoted_group = [A (One (OneOf quote_chars)), A GOpen, A (Plus (NoneOf quote_chars)), A GClose,
     A (One (OneOf quote_chars))]"

definition select_from :: "node list" where
  \<comment> \<open>\<open>SELECT\s+(.*?)\s+FROM\s+([A-Z][a-zA-Z0-9_]*(?:__c)?)\b\<close>\<close>
  "select_from = [A (Lit ''SELECT''), A (Plus Space), A GOpen, A (LazyStar Any), A GClose,
     A (Plus Space), A (Lit ''FROM''), A (Plus Space)] @ object_group @ [A WordB]"

definition soql_patterns :: "regex list" where
  \<comment> \<open>compiled with IGNORECASE and DOTALL\<close>
  "soql_patterns = map (\<lambda>ns. \<lparr>ignorecase = True, nodes = ns\<rparr>)
     [ [A (Lit ''['')] @ select_from,
       [A (Lit ''Database.query''), A (Star Space), A (Lit ''(''), A (Star Space),
        A (One (OneOf quote_chars))] @ select_from,
       [A (Lit ''Database.getQueryLocator''), A (Star Space), A (Lit ''(''), A (Star Space),
        A (One (OneOf quote_chars))] @ select_from,
       [A WordB, A (Lit ''FROM''), A (Plus Space)] @ object_group @ [A WordB] ]"

definition select_field_pattern :: regex where
  \<comment> \<open>\<open>\b([A-Z][a-zA-Z0-9_]*(?:__c)?)\b\<close>\<close>
  "select_field_pattern = \<lparr>ignorecase = False, nodes = [A WordB] @ object_group @ [A WordB]\<rparr>"

definition dml_patterns :: "regex list" where
  \<comment> \<open>compiled with IGNORECASE\<close>
  "dml_patterns = map (\<lambda>ns. \<lparr>ignorecase = True, nodes = ns\<rparr>)
     [ [A WordB, Alt [[Lit ''insert''], [Lit ''update''], [Lit ''delete''], [Lit ''upsert'']],
        A (Plus Space)] @ object_group @ [A WordB],
       [A WordB, A (Lit ''new''), A (Plus Space)] @ object_group @ [A (Star Space), A (Lit ''('')],
       [A (Lit ''List<'')] @ object_group @ [A (Lit ''>'')],
       [A (Lit ''Map<''), A (Plus (NoneOf '','')), A (Lit '',''), A (Star Space)] @ object_group
         @ [A (Lit ''>'')],
       [A (Lit ''Set<'')] @ object_group @ [A (Lit ''>'')],
       [A (Lit ''Schema.'')] @ object_group,
       [A (Lit ''Schema.getGlobalDescribe().get(''), A (One (OneOf quote_chars))] @ object_group
         @ [A (One (OneOf quote_chars))] ]"

definition field_patterns :: "regex list" where
  "field_patterns = map (\<lambda>ns. \<lparr>ignorecase = False, nodes = ns\<rparr>)
     [ [A (Lit ''.'')] @ object_group
         @ [Alt [[Star Space, Lit ''=''], [Star Space, Lit ''!=''], [Star Space, Lit ''>''],
                 [Star Space, Lit ''<'']]],
       [A (Lit ''.get(''), A (One (OneOf quote_chars))] @ object_group
         @ [A (One (OneOf quote_chars))],
       [A (Lit ''.put(''), A (One (OneOf quote_chars))] @ object_group
         @ [A (One (OneOf quote_chars))] ]"

definition class_patterns :: "regex list" where
  "class_patterns = map (\<lambda>ns. \<lparr>ignorecase = False, nodes = ns\<rparr>)
     [ [A WordB] @ class_group @ [A (Lit ''.''), A GOpen, A (One Alpha), A (Star Ident), A GClose,
         A (Star Space), A (Lit ''('')],
       [A WordB, A (Lit ''new''), A (Plus Space)] @ class_group @ [A (Star Space), A (Lit ''('')],
       [A (Lit ''extends''), A (Plus Space)] @ class_group @ [A WordB],
       [A (Lit ''implements''), A (Plus Space)] @ class_group @ [A WordB],
       [A (Lit ''@'')] @ class_group,
       [A (Lit ''catch''), A (Star Space), A (Lit ''(''), A (Star Space), A GOpen, A (One Upper),
        A (Plus Ident), A (Lit ''Exception''), A GClose] ]"

definition system_classes :: "string list" where
  "system_classes = [''System'', ''Database'', ''String'', ''Integer'', ''Boolean'', ''Decimal'',
     ''Date'', ''DateTime'', ''Time'', ''Messaging'', ''Http'', ''HttpRequest'', ''HttpResponse'',
     ''JSON'', ''Math'', ''Test'', ''Schema'', ''UserInfo'', ''Limits'', ''ApexPages'',
     ''PageReference'', ''Blob'', ''Crypto'', ''Pattern'', ''Matcher'', ''Exception'',
     ''DmlException'', ''QueryException'']"

definition custom_settings_patterns :: "regex list" where
  "custom_settings_patterns = map (\<lambda>ns. \<lparr>ignorecase = False, nodes = ns\<rparr>)
     [ [A GOpen, A (One Upper), A (Star Ident), A (Lit ''__c''), A GClose, A (Lit ''.getInstance()'')],
       [A GOpen, A (One Upper), A (Star Ident), A (Lit ''__c''), A GClose, A (Lit ''.getValues()'')],
       [A GOpen, A (One Upper), A (Star Ident), A (Lit ''__c''), A GClose, A (Lit ''.getAll()'')],
       [A GOpen, A (One Upper), A (Star Ident), A (Lit ''__mdt''), A GClose, A WordB] ]"

definition webservice_patterns :: "regex list" where
  "webservice_patterns = map (\<lambda>ns. \<lparr>ignorecase = False, nodes = ns\<rparr>)
     [ [A (Lit ''.setEndpoint''), A (Star Space), A (Lit ''(''), A (Star Space)] @ quoted_group,
       [A (Lit ''@RestResource''), A (Star Space), A (Lit ''(''), A (Star Space),
        A (Lit ''urlMapping''), A (Star Space), A (Lit ''=''), A (Star Space)] @ quoted_group,
       [Alt [[Lit ''@HttpGet''], [Lit ''@HttpPost''], [Lit ''@HttpPut''], [Lit ''@HttpDelete''],
             [Lit ''@HttpPatch'']]],
       [A (Lit ''Webservice''), A (Plus Space), A (Lit ''static'')],
       [A (Lit ''Http''), A (Plus Space), A (Plus Word), A (Star Space), A (Lit ''=''),
        A (Star Space), A (Lit ''new''), A (Plus Space), A (Lit ''Http()'')] ]"

definition email_patterns :: "regex list" where
  "email_patterns = map (\<lambda>ns. \<lparr>ignorecase = False, nodes = ns\<rparr>)
     [ [A (Lit ''.setTemplateId''), A (Star Space), A (Lit ''(''), A (Star Space)] @ quoted_group,
       [A (Lit ''EmailTemplate''), A (Plus Space), A (Plus Word)],
       [A (Lit ''Messaging.SingleEmailMessage'')],
       [A (Lit ''Messaging.MassEmailMessage'')],
       [A (Lit ''Messaging.sendEmail'')] ]"

definition label_patterns :: "regex list" where
  "label_patterns = map (\<lambda>ns. \<lparr>ignorecase = False, nodes = ns\<rparr>)
     [ [A (Lit ''Label.'')] @ label_group,
       [A (Lit ''$Label.'')] @ label_group ]"

definition static_resource_patterns :: "regex list" where
  "static_resource_patterns = map (\<lambda>ns. \<lparr>ignorecase = False, nodes = ns\<rparr>)
     [ [A (Lit ''$Resource.'')] @ label_group,
       [A (Lit ''StaticResource.'')] @ label_group ]"

subsection \<open>\<open>extract_comprehensive_dependencies\<close>\<close>

type_synonym dependencies = "(string \<times> string list) list"

definition all_matches :: "regex list \<Rightarrow> string \<Rightarrow> rmatch list" where
  \<comment> \<open>\<open>for pattern in patterns: for match in re.findall(pattern, source_code)\<close>\<close>
  "all_matches ps src = concat (map (\<lambda>p. findall p src) ps)"

definition soql_objects :: "rmatch \<Rightarrow> string list" where
  "soql_objects m = (case m of MTuple [fields_str, object_name] \<Rightarrow> [object_name]
     | MTuple _ \<Rightarrow> [] | MStr s \<Rightarrow> [s])"

definition soql_fields :: "rmatch \<Rightarrow> string list" where
  "soql_fields m = (case m of
       MTuple [fields_str, object_name] \<Rightarrow>
         map (\<lambda>field. object_name @ ''.'' @ field) (strs (findall select_field_pattern fields_str))
     | MTuple _ \<Rightarrow> [] | MStr s \<Rightarrow> [])"

definition class_names :: "rmatch \<Rightarrow> string list" where
  \<comment> \<open>only the first class pattern has groups, and it has two\<close>
  "class_names m = (case m of
       MTuple [class_name, method_name] \<Rightarrow> if class_name \<notin> set system_classes then [class_name] else []
     | MTuple _ \<Rightarrow> []
     | MStr s \<Rightarrow> if s \<notin> set system_classes then [s] else [])"

definition method_names :: "rmatch \<Rightarrow> string list" where
  "method_names m = (case m of
       MTuple [class_name, method_name] \<Rightarrow>
         if class_name \<notin> set system_classes then [class_name @ ''.'' @ method_name] else []
     | MTuple _ \<Rightarrow> []
     | MStr s \<Rightarrow> [])"

definition collect_dependencies :: "string \<Rightarrow> dependencies" where
  \<comment> \<open>the dictionary before the final clean-up: every list in the order of its appends\<close>
  "collect_dependencies source_code =
     [ (''objects'', concat (map soql_objects (all_matches soql_patterns source_code))
                     @ strs (all_matches dml_patterns source_code)),
       (''classes'', concat (map class_names (all_matches class_patterns source_code))),
       (''fields'', concat (map soql_fields (all_matches soql_patterns source_code))
                    @ strs (all_matches field_patterns source_code)),
       (''methods'', concat (map method_names (all_matches class_patterns source_code))),
       (''custom_settings'', strs (all_matches custom_settings_patterns source_code)),
       (''web_services'', strs (all_matches webservice_patterns source_code)),
       (''email_templates'', strs (all_matches email_patterns source_code)),
       (''custom_labels'', strs (all_matches label_patterns source_code)),
       (''static_resources'', strs (all_matches static_resource_patterns source_code)),
       (''triggers'', []),
       (''workflows'', []) ]"

definition clean :: "string list \<Rightarrow> string list" where
  \<comment> \<open>\<open>list(set([dep for dep in deps if dep and len(dep) > 1]))\<close>; Python leaves the order of
     the result open, the model keeps one\<close>
  "clean deps = remdups (filter (\<lambda>dep. dep \<noteq> [] \<and> 1 < length dep) deps)"

definition extract_comprehensive_dependencies :: "string \<Rightarrow> string \<Rightarrow> string \<Rightarrow> dependencies" where
  "extract_comprehensive_dependencies source_code component_name component_type =
     map (\<lambda>(key, deps). (key, clean deps)) (collect_dependencies source_code)"

subsection \<open>The trigger header\<close>

definition trigger_object_pattern :: regex where
  \<comment> \<open>\<open>trigger\s+\w+\s+on\s+(\w+)\s*\(\<close>, IGNORECASE\<close>
  "trigger_object_pattern = \<lparr>ignorecase = True, nodes =
     [A (Lit ''trigger''), A (Plus Space), A (Plus Word), A (Plus Space), A (Lit ''on''),
      A (Plus Space), A GOpen, A (Plus Word), A GClose, A (Star Space), A (Lit ''('')]\<rparr>"

definition trigger_events_pattern :: regex where
  \<comment> \<open>\<open>trigger\s+\w+\s+on\s+\w+\s*\(\s*([^)]+)\s*\)\<close>, IGNORECASE\<close>
  "trigger_events_pattern = \<lparr>ignorecase = True, nodes =
     [A (Lit ''trigger''), A (Plus Space), A (Plus Word), A (Plus Space), A (Lit ''on''),
      A (Plus Space), A (Plus Word), A (Star Space), A (Lit ''(''), A (Star Space),
      A GOpen, A (Plus (NoneOf '')'')), A GClose, A (Star Space), A (Lit '')'')]\<rparr>"

definition extract_trigger_object :: "string \<Rightarrow> string option" where
  "extract_trigger_object source_code =
     (case re_search trigger_object_pattern None source_code of
        Some (g # _) \<Rightarrow> Some g | _ \<Rightarrow> None)"

definition extract_trigger_events :: "string \<Rightarrow> string list" where
  "extract_trigger_events source_code =
     (case re_search trigger_events_pattern None source_code of
        Some (events_str # _) \<Rightarrow> map strip (split_on CHR '','' events_str)
      | _ \<Rightarrow> [])"

section \<open>The Relationship Synthesizer\<close>

record edge =
  efrom :: string                 \<comment> \<open>key \<open>from\<close>\<close>
  eto :: string                   \<comment> \<open>key \<open>to\<close>\<close>
  etype :: string                 \<comment> \<open>key \<open>type\<close>\<close>
  details :: "string option"      \<comment> \<open>key \<open>details\<close>, absent in the structural edges\<close>
  econtext :: "string option"      \<comment> \<open>key \<open>context\<close>, written by the two parsers only\<close>

definition triple :: "edge \<Rightarrow> string \<times> string \<times> string" where
  "triple e = (efrom e, eto e, etype e)"

definition mk_edge :: "string \<Rightarrow> string \<Rightarrow> string \<Rightarrow> string \<Rightarrow> edge" where
  "mk_edge f t ty d = \<lparr>efrom = f, eto = t, etype = ty, details = Some d, econtext = None\<rparr>"

text \<open>
  \<open>_create_class_relationships\<close> and \<open>_create_trigger_relationships\<close> are sequences of loops,
  each over one entry of the dependency record, each appending to \<open>self.relationships\<close>.
  A loop is a pair of the key and the edges made from the list under it; \<open>run_loops\<close> runs
  them in order and stops with the key at the first one the record lacks (the KeyError of
  \<open>dependencies[key]\<close>), after the edges of the loops before it.
\<close>

type_synonym loop = "string \<times> (string list \<Rightarrow> edge list)"

fun run_loops :: "loop list \<Rightarrow> dependencies \<Rightarrow> edge list \<times> string option" where
  "run_loops [] deps = ([], None)"
| "run_loops ((key, body) # ls) deps =
     (case map_of deps key of
        None \<Rightarrow> ([], Some key)
      | Some xs \<Rightarrow> (case run_loops ls deps of (es, err) \<Rightarrow> (body xs @ es, err)))"

definition has_dot :: "string \<Rightarrow> bool" where
  \<comment> \<open>\<open>'.' in field\<close>\<close>
  "has_dot s = (CHR ''.'' \<in> set s)"

definition class_loops :: "string \<Rightarrow> loop list" where
  "class_loops class_id =
     [ (''objects'', map (\<lambda>obj. mk_edge class_id (''object_'' @ obj) ''USES_OBJECT''
          ''References object in SOQL/DML operations'')),
       (''classes'', map (\<lambda>cls. mk_edge class_id (''class_'' @ cls) ''DEPENDS_ON_CLASS''
          ''Calls methods or instantiates class'')),
       (''fields'', \<lambda>fs. concat (map (\<lambda>field.
          if has_dot field
          then (case split1 CHR ''.'' field of (obj_name, field_name) \<Rightarrow>
                  [mk_edge class_id (''field_'' @ obj_name @ ''_'' @ field_name) ''ACCESSES_FIELD''
                     (''Accesses field '' @ field_name @ '' on '' @ obj_name)])
          else []) fs)),
       (''methods'', \<lambda>ms. concat (map (\<lambda>method.
          if has_dot method
          then (case split1 CHR ''.'' method of (cls_name, method_name) \<Rightarrow>
                  [mk_edge class_id (''class_'' @ cls_name) ''CALLS_METHOD''
                     (''Calls method '' @ method_name)])
          else []) ms)),
       (''custom_settings'', map (\<lambda>setting. mk_edge class_id (''object_'' @ setting)
          ''USES_CUSTOM_SETTING'' ''Accesses custom setting or metadata'')),
       (''web_services'', \<lambda>ss. concat (map (\<lambda>service.
          if starts_with ''http'' service
          then [mk_edge class_id
                  (''webservice_'' @ replace_str '':'' ''_'' (replace_str ''/'' ''_'' service))
                  ''CALLS_WEBSERVICE'' (''Makes HTTP callout to '' @ service)]
          else []) ss)),
       (''email_templates'', map (\<lambda>template. mk_edge class_id (''emailtemplate_'' @ template)
          ''USES_EMAIL_TEMPLATE'' ''Uses email template for messaging'')),
       (''custom_labels'', map (\<lambda>label. mk_edge class_id (''customlabel_'' @ label)
          ''USES_CUSTOM_LABEL'' ''References custom label'')),
       (''static_resources'', map (\<lambda>resource. mk_edge class_id (''staticresource_'' @ resource)
          ''USES_STATIC_RESOURCE'' ''References static resource'')) ]"

definition create_class_relationships :: "string \<Rightarrow> dependencies \<Rightarrow> edge list \<times> string option" where
  \<comment> \<open>the edges appended, and the key of a KeyError\<close>
  "create_class_relationships class_id deps = run_loops (class_loops class_id) deps"

definition trigger_loops :: "string \<Rightarrow> string option \<Rightarrow> loop list" where
  "trigger_loops trigger_id trigger_object =
     [ (''classes'', map (\<lambda>cls.
          if contains ''Handler'' cls \<or> contains ''Helper'' cls
          then mk_edge trigger_id (''class_'' @ cls) ''DELEGATES_TO_HANDLER''
                 ''Trigger delegates business logic to handler class''
          else mk_edge trigger_id (''class_'' @ cls) ''CALLS_CLASS''
                 ''Trigger calls methods in this class'')),
       (''objects'', \<lambda>os. concat (map (\<lambda>obj.
          if Some obj \<noteq> trigger_object
          then [mk_edge trigger_id (''object_'' @ obj) ''AFFECTS_OBJECT''
                  (''Trigger performs operations on '' @ obj)]
          else []) os)),
       (''fields'', \<lambda>fs. concat (map (\<lambda>field.
          if has_dot field
          then (case split1 CHR ''.'' field of (obj_name, field_name) \<Rightarrow>
                  [mk_edge trigger_id (''field_'' @ obj_name @ ''_'' @ field_name) ''MODIFIES_FIELD''
                     (''Trigger modifies or reads field '' @ field_name)])
          else []) fs)) ]"

definition create_trigger_relationships ::
  "string \<Rightarrow> dependencies \<Rightarrow> string option \<Rightarrow> edge list \<times> string option" where
  "create_trigger_relationships trigger_id deps trigger_object =
     run_loops (trigger_loops trigger_id trigger_object) deps"

section \<open>Impact analysis\<close>

record impact =
  component :: string     \<comment> \<open>key \<open>target\<close> in \<open>affects\<close>, key \<open>source\<close> in \<open>affected_by\<close>\<close>
  rel_type :: string
  rel_details :: string

definition get_details :: "edge \<Rightarrow> string" where
  \<comment> \<open>\<open>rel.get('details', '')\<close>\<close>
  "get_details rel = (case details rel of None \<Rightarrow> [] | Some d \<Rightarrow> d)"

fun generate_impact_analysis :: "edge list \<Rightarrow> string \<Rightarrow> impact list \<times> impact list" where
  \<comment> \<open>returns \<open>(affected_by, affects)\<close>\<close>
  "generate_impact_analysis [] component_id = ([], [])"
| "generate_impact_analysis (rel # rels) component_id =
     (case generate_impact_analysis rels component_id of (affected_by, affects) \<Rightarrow>
        if efrom rel = component_id
        then (affected_by,
              \<lparr>component = eto rel, rel_type = etype rel, rel_details = get_details rel\<rparr> # affects)
        else if eto rel = component_id
        then (\<lparr>component = efrom rel, rel_type = etype rel, rel_details = get_details rel\<rparr>
                # affected_by, affects)
        else (affected_by, affects))"

section \<open>The Structured Definition Normalizer\<close>

subsection \<open>Parsed definition files\<close>

datatype xml = Element (xtag: string) (xattrib: "(string \<times> string) list")
  (xtext: "string option") (xchildren: "xml list")

datatype jval = JNone | JStr string | JList "jval list" | JDict "(string \<times> jval) list"

definition remove_namespace :: "string \<Rightarrow> string" where
  "remove_namespace t = (if CHR ''}'' \<in> set t then last (split_on CHR ''}'' t) else t)"

fun dict_set :: "(string \<times> 'v) list \<Rightarrow> string \<Rightarrow> 'v \<Rightarrow> (string \<times> 'v) list" where
  \<comment> \<open>\<open>d[k] = v\<close> on a dictionary in insertion order\<close>
  "dict_set [] k v = [(k, v)]"
| "dict_set ((k', v') # d) k v = (if k' = k then (k, v) # d else (k', v') # dict_set d k v)"

definition add_child :: "(string \<times> jval) list \<Rightarrow> string \<times> jval \<Rightarrow> (string \<times> jval) list" where
  "add_child cs tv =
     (case map_of cs (fst tv) of
        None \<Rightarrow> dict_set cs (fst tv) (snd tv)
      | Some (JList vs) \<Rightarrow> dict_set cs (fst tv) (JList (vs @ [snd tv]))
      | Some v \<Rightarrow> dict_set cs (fst tv) (JList [v, snd tv]))"

definition stripped_text :: "xml \<Rightarrow> string" where
  \<comment> \<open>\<open>element.text.strip()\<close>, empty when there is no text\<close>
  "stripped_text e = (case xtext e of None \<Rightarrow> [] | Some t \<Rightarrow> strip t)"

definition has_text :: "xml \<Rightarrow> bool" where
  \<comment> \<open>\<open>item.text\<close> as a condition\<close>
  "has_text e = (case xtext e of None \<Rightarrow> False | Some t \<Rightarrow> t \<noteq> [])"

fun xml_to_dict :: "xml \<Rightarrow> jval" where
  "xml_to_dict (Element t attrs tx cs) =
     (if stripped_text (Element t attrs tx cs) \<noteq> [] \<and> cs = []
      then JStr (stripped_text (Element t attrs tx cs))
      else
        (let result0 = (if stripped_text (Element t attrs tx cs) \<noteq> []
                        then [(''_text'', JStr (stripped_text (Element t attrs tx cs)))] else []);
             result1 = (if attrs \<noteq> []
                        then dict_set result0 ''_attributes'' (JDict (map (\<lambda>(k, v). (k, JStr v)) attrs))
                        else result0);
             kids = foldl add_child []
                      (map (\<lambda>child. (remove_namespace (xtag child), xml_to_dict child)) cs);
             result = foldl (\<lambda>d (k, v). dict_set d k v) result1 kids
         in if result = [] then JNone else JDict result))"

fun xml_iter :: "xml \<Rightarrow> xml list" where
  \<comment> \<open>\<open>element.iter()\<close>: the element and its descendants in document order\<close>
  "xml_iter (Element t attrs tx cs) = Element t attrs tx cs # concat (map xml_iter cs)"

definition field_texts :: "xml \<Rightarrow> string list" where
  \<comment> \<open>the stripped texts of the \<open>field\<close> elements below and including an element\<close>
  "field_texts e = map stripped_text
     (filter (\<lambda>item. remove_namespace (xtag item) = ''field'' \<and> has_text item) (xml_iter e))"

definition extract_layout_fields :: "xml \<Rightarrow> string list" where
  \<comment> \<open>ends in \<open>list(set(fields))\<close>\<close>
  "extract_layout_fields layout_root = remdups (field_texts layout_root)"

record section_data =
  label :: string
  columns :: nat
  section_fields :: "string list"

definition section_of :: "xml \<Rightarrow> section_data" where
  "section_of section = foldl (\<lambda>sd child.
       if remove_namespace (xtag child) = ''label'' \<and> has_text child
       then sd\<lparr>label := stripped_text child\<rparr>
       else if remove_namespace (xtag child) = ''layoutColumns''
       then sd\<lparr>section_fields := section_fields sd @ field_texts child\<rparr>
       else sd)
     \<lparr>label = [], columns = 1, section_fields = []\<rparr> (xchildren section)"

definition extract_layout_sections :: "xml \<Rightarrow> section_data list" where
  "extract_layout_sections layout_root =
     filter (\<lambda>sd. label sd \<noteq> [] \<or> section_fields sd \<noteq> [])
       (map section_of
          (filter (\<lambda>s. remove_namespace (xtag s) = ''layoutSection'') (xml_iter layout_root)))"

record related_list =
  rl_object :: string
  rl_fields :: "string list"
  rl_label :: string

definition related_list_of :: "xml \<Rightarrow> related_list" where
  "related_list_of rl = foldl (\<lambda>ld child.
       if remove_namespace (xtag child) = ''relatedList'' \<and> has_text child
       then ld\<lparr>rl_object := stripped_text child\<rparr>
       else if remove_namespace (xtag child) = ''fields''
       then ld\<lparr>rl_fields := rl_fields ld @ map stripped_text (filter has_text (xml_iter child))\<rparr>
       else ld)
     \<lparr>rl_object = [], rl_fields = [], rl_label = []\<rparr> (xchildren rl)"

definition extract_related_lists :: "xml \<Rightarrow> related_list list" where
  "extract_related_lists layout_root =
     filter (\<lambda>ld. rl_object ld \<noteq> [])
       (map related_list_of
          (filter (\<lambda>r. remove_namespace (xtag r) = ''relatedList'') (xml_iter layout_root)))"

subsection \<open>Entity records\<close>

record entity =
  eid :: string          \<comment> \<open>key \<open>id\<close>\<close>
  kind :: string         \<comment> \<open>key \<open>type\<close>\<close>
  name :: string
  metadata :: jval

record component_entity = entity +
  \<comment> \<open>a field, list view, web link or workflow\<close>
  object :: string

record layout_entity = component_entity +
  fields_on_layout :: "string list"
  sections :: "section_data list"
  related_lists :: "related_list list"

record class_entity = entity +
  source_code :: string
  comprehensive_dependencies :: dependencies

record trigger_entity = class_entity +
  trigger_events :: "string list"
  trigger_object :: "string option"   \<comment> \<open>key \<open>object\<close>, \<open>None\<close> when the key is absent\<close>

record object_entity = entity +
  obj_fields :: "component_entity list"   \<comment> \<open>key \<open>fields\<close>\<close>
  listViews :: "component_entity list"
  webLinks :: "component_entity list"

subsection \<open>The input tree\<close>

text \<open>
  A definition file is its path as printed in messages, its stem, and what \<open>ET.parse\<close>
  makes of it: the root element, or the message of the exception it raises. A source file
  has its text (absent when the file does not exist, the message of the exception when
  reading raises) and the descriptor file beside it, when there is one.
\<close>

record meta_file =
  path :: string
  stem :: string
  parsed :: "string + xml"

record source_file =
  src_path :: string
  src_stem :: string
  src_text :: "(string + string) option"
  src_meta :: "(string + xml) option"

record object_dir =
  dir_name :: string
  object_file :: "(string \<times> (string + xml)) option"  \<comment> \<open>path and parse result, when it exists\<close>
  field_files :: "meta_file list"
  listview_files :: "meta_file list"
  weblink_files :: "meta_file list"

record input_tree =
  object_dirs :: "object_dir list"
  layout_files :: "meta_file list"
  class_files :: "source_file list"
  trigger_files :: "source_file list"
  workflow_files :: "meta_file list"

subsection \<open>The converter and its statistics\<close>

record conversion_stats =
  objects_processed :: nat
  fields_processed :: nat
  layouts_processed :: nat
  classes_processed :: nat
  triggers_processed :: nat
  workflows_processed :: nat
  errors :: "string list"

record converter =
  relationships :: "edge list"
  stats :: conversion_stats

definition init_converter :: converter where
  "init_converter = \<lparr>relationships = [],
     stats = \<lparr>objects_processed = 0, fields_processed = 0, layouts_processed = 0,
       classes_processed = 0, triggers_processed = 0, workflows_processed = 0, errors = []\<rparr>\<rparr>"

definition record_error :: "string \<Rightarrow> converter \<Rightarrow> converter" where
  \<comment> \<open>\<open>self.conversion_stats['errors'].append(msg)\<close>\<close>
  "record_error msg cv = cv\<lparr>stats := (stats cv)\<lparr>errors := errors (stats cv) @ [msg]\<rparr>\<rparr>"

definition append_edges :: "edge list \<Rightarrow> converter \<Rightarrow> converter" where
  "append_edges es cv = cv\<lparr>relationships := relationships cv @ es\<rparr>"

definition structural_edge :: "string \<Rightarrow> string \<Rightarrow> string \<Rightarrow> edge" where
  \<comment> \<open>an edge without \<open>details\<close>\<close>
  "structural_edge f t ty = \<lparr>efrom = f, eto = t, etype = ty, details = None, econtext = None\<rparr>"

subsection \<open>Objects and their sub-definitions\<close>

definition process_field :: "meta_file \<Rightarrow> string \<Rightarrow> converter \<Rightarrow> component_entity option \<times> converter" where
  "process_field field_file object_name cv =
     (case parsed field_file of
        Inl e \<Rightarrow> (None, record_error (''Error processing field '' @ path field_file @ '': '' @ e) cv)
      | Inr root \<Rightarrow>
          (let field_name = replace_str ''.field-meta'' [] (stem field_file) in
           (Some \<lparr>eid = ''field_'' @ object_name @ ''_'' @ field_name, kind = ''CustomField'',
                   name = field_name, metadata = xml_to_dict root, object = object_name\<rparr>,
            cv\<lparr>stats := (stats cv)\<lparr>fields_processed := fields_processed (stats cv) + 1\<rparr>\<rparr>)))"

definition process_listview :: "meta_file \<Rightarrow> string \<Rightarrow> converter \<Rightarrow> component_entity option \<times> converter" where
  "process_listview listview_file object_name cv =
     (case parsed listview_file of
        Inl e \<Rightarrow> (None, record_error (''Error processing listview '' @ path listview_file @ '': '' @ e) cv)
      | Inr root \<Rightarrow>
          (let listview_name = replace_str ''.listView-meta'' [] (stem listview_file) in
           (Some \<lparr>eid = ''listview_'' @ object_name @ ''_'' @ listview_name, kind = ''ListView'',
                   name = listview_name, metadata = xml_to_dict root, object = object_name\<rparr>,
            cv)))"

definition process_weblink :: "meta_file \<Rightarrow> string \<Rightarrow> converter \<Rightarrow> component_entity option \<times> converter" where
  "process_weblink weblink_file object_name cv =
     (case parsed weblink_file of
        Inl e \<Rightarrow> (None, record_error (''Error processing weblink '' @ path weblink_file @ '': '' @ e) cv)
      | Inr root \<Rightarrow>
          (let weblink_name = replace_str ''.webLink-meta'' [] (stem weblink_file) in
           (Some \<lparr>eid = ''weblink_'' @ object_name @ ''_'' @ weblink_name, kind = ''WebLink'',
                   name = weblink_name, metadata = xml_to_dict root, object = object_name\<rparr>,
            cv)))"

fun process_sub_files ::
  "(meta_file \<Rightarrow> string \<Rightarrow> converter \<Rightarrow> component_entity option \<times> converter) \<Rightarrow> string
     \<Rightarrow> meta_file list \<Rightarrow> string \<Rightarrow> string \<Rightarrow> converter \<Rightarrow> component_entity list \<times> converter" where
  \<comment> \<open>one of the three loops of \<open>process_custom_object\<close>: every file is processed, and an entity
     that comes back is kept and tied to the object by an edge\<close>
  "process_sub_files process edge_type [] object_name object_id cv = ([], cv)"
| "process_sub_files process edge_type (f # fs) object_name object_id cv =
     (case process f object_name cv of
        (None, cv1) \<Rightarrow> process_sub_files process edge_type fs object_name object_id cv1
      | (Some data, cv1) \<Rightarrow>
          (case process_sub_files process edge_type fs object_name object_id
                  (append_edges [structural_edge object_id (eid data) edge_type] cv1) of
             (ds, cv2) \<Rightarrow> (data # ds, cv2)))"

definition process_custom_object :: "object_dir \<Rightarrow> converter \<Rightarrow> object_entity \<times> converter" where
  "process_custom_object object_path cv =
     (let object_name = dir_name object_path;
          object_id = ''object_'' @ object_name;
          (md, cv0) = (case object_file object_path of
              None \<Rightarrow> (JDict [], cv)
            | Some (p, Inl e) \<Rightarrow> (JDict [], record_error (''Error processing '' @ p @ '': '' @ e) cv)
            | Some (p, Inr root) \<Rightarrow>
                (xml_to_dict root,
                 cv\<lparr>stats := (stats cv)\<lparr>objects_processed := objects_processed (stats cv) + 1\<rparr>\<rparr>));
          (fs, cv1) = process_sub_files process_field ''HAS_FIELD'' (field_files object_path)
                        object_name object_id cv0;
          (ls, cv2) = process_sub_files process_listview ''HAS_LISTVIEW'' (listview_files object_path)
                        object_name object_id cv1;
          (ws, cv3) = process_sub_files process_weblink ''HAS_WEBLINK'' (weblink_files object_path)
                        object_name object_id cv2
      in (\<lparr>eid = object_id, kind = ''CustomObject'', name = object_name, metadata = md,
            obj_fields = fs, listViews = ls, webLinks = ws\<rparr>, cv3))"

subsection \<open>Layouts and workflows\<close>

fun show_nat :: "nat \<Rightarrow> string" where
  "show_nat n = (if n < 10 then [char_of (48 + n)] else show_nat (n div 10) @ [char_of (48 + n mod 10)])"

declare show_nat.simps [simp del]

definition create_layout_relationships ::
  "string \<Rightarrow> string \<Rightarrow> string list \<Rightarrow> related_list list \<Rightarrow> edge list" where
  "create_layout_relationships layout_id object_name fs rls =
     mk_edge (''object_'' @ object_name) layout_id ''HAS_LAYOUT''
        (''Layout displays '' @ show_nat (length fs) @ '' fields'')
     # map (\<lambda>field. mk_edge layout_id (''field_'' @ object_name @ ''_'' @ field) ''DISPLAYS_FIELD''
              (''Field '' @ field @ '' is displayed on layout'')) fs
     @ concat (map (\<lambda>rl.
         if rl_object rl \<noteq> []
         then mk_edge layout_id (''object_'' @ rl_object rl) ''SHOWS_RELATED_LIST''
                (''Layout shows related '' @ rl_object rl @ '' records'')
              # map (\<lambda>field. mk_edge layout_id (''field_'' @ rl_object rl @ ''_'' @ field)
                       ''DISPLAYS_RELATED_FIELD'' (''Related list displays field '' @ field))
                  (rl_fields rl)
         else []) rls)"

definition layout_id_of :: "string \<Rightarrow> string" where
  "layout_id_of layout_name = ''layout_'' @ replace_str ''%29'' [] (replace_str ''%28'' []
     (replace_str '')'' [] (replace_str ''('' [] (replace_str '' '' ''_'' layout_name))))"

definition process_layout :: "meta_file \<Rightarrow> converter \<Rightarrow> layout_entity option \<times> converter" where
  "process_layout layout_file cv =
     (case parsed layout_file of
        Inl e \<Rightarrow> (None, record_error (''Error processing layout '' @ path layout_file @ '': '' @ e) cv)
      | Inr root \<Rightarrow>
          (let layout_name = replace_str ''.layout-meta'' [] (stem layout_file);
               object_name = (case split_on CHR ''-'' layout_name of p # _ \<Rightarrow> p | [] \<Rightarrow> []);
               lid = layout_id_of layout_name;
               fs = extract_layout_fields root;
               rls = extract_related_lists root;
               cv1 = append_edges (create_layout_relationships lid object_name fs rls) cv
           in (Some \<lparr>eid = lid, kind = ''Layout'', name = layout_name, metadata = xml_to_dict root,
                     object = object_name, fields_on_layout = fs,
                     sections = extract_layout_sections root, related_lists = rls\<rparr>,
               cv1\<lparr>stats := (stats cv1)\<lparr>layouts_processed := layouts_processed (stats cv1) + 1\<rparr>\<rparr>)))"

definition process_workflow :: "meta_file \<Rightarrow> converter \<Rightarrow> component_entity option \<times> converter" where
  "process_workflow workflow_file cv =
     (case parsed workflow_file of
        Inl e \<Rightarrow> (None, record_error (''Error processing workflow '' @ path workflow_file @ '': '' @ e) cv)
      | Inr root \<Rightarrow>
          (let workflow_name = replace_str ''.workflow-meta'' [] (stem workflow_file);
               wid = ''workflow_'' @ workflow_name;
               cv1 = append_edges [structural_edge (''object_'' @ workflow_name) wid ''HAS_WORKFLOW''] cv
           in (Some \<lparr>eid = wid, kind = ''Workflow'', name = workflow_name,
                     metadata = xml_to_dict root, object = workflow_name\<rparr>,
               cv1\<lparr>stats := (stats cv1)\<lparr>workflows_processed := workflows_processed (stats cv1) + 1\<rparr>\<rparr>)))"

subsection \<open>Classes and triggers\<close>

definition read_source :: "source_file \<Rightarrow> string + (string \<times> jval)" where
  \<comment> \<open>the first two steps of \<open>process_apex_class\<close> and \<open>process_trigger\<close>: the source text
     (empty when the file does not exist) and the descriptor (an empty dictionary when there
     is none); \<open>Inl\<close> is the message of the exception either step raises\<close>
  "read_source f =
     (case src_text f of
        Some (Inl e) \<Rightarrow> Inl e
      | Some (Inr txt) \<Rightarrow>
          (case src_meta f of None \<Rightarrow> Inr (txt, JDict []) | Some (Inl e) \<Rightarrow> Inl e
           | Some (Inr root) \<Rightarrow> Inr (txt, xml_to_dict root))
      | None \<Rightarrow>
          (case src_meta f of None \<Rightarrow> Inr ([], JDict []) | Some (Inl e) \<Rightarrow> Inl e
           | Some (Inr root) \<Rightarrow> Inr ([], xml_to_dict root)))"

definition key_error :: "string \<Rightarrow> string" where
  \<comment> \<open>\<open>str(KeyError(key))\<close>\<close>
  "key_error key = [CHR 0x27] @ key @ [CHR 0x27]"

definition process_apex_class :: "source_file \<Rightarrow> converter \<Rightarrow> class_entity option \<times> converter" where
  "process_apex_class class_file cv =
     (let class_name = src_stem class_file; class_id = ''class_'' @ class_name in
      case read_source class_file of
        Inl e \<Rightarrow> (None, record_error (''Error processing class '' @ src_path class_file @ '': '' @ e) cv)
      | Inr (code_text, md) \<Rightarrow>
          (let deps = extract_comprehensive_dependencies code_text class_name ''ApexClass'' in
           case create_class_relationships class_id deps of
             (es, Some key) \<Rightarrow>
               (None, record_error (''Error processing class '' @ src_path class_file @ '': ''
                                    @ key_error key) (append_edges es cv))
           | (es, None) \<Rightarrow>
               (let cv1 = append_edges es cv in
                (Some \<lparr>eid = class_id, kind = ''ApexClass'', name = class_name, metadata = md,
                        source_code = code_text, comprehensive_dependencies = deps\<rparr>,
                 cv1\<lparr>stats := (stats cv1)\<lparr>classes_processed := classes_processed (stats cv1) + 1\<rparr>\<rparr>))))"

definition process_trigger :: "source_file \<Rightarrow> converter \<Rightarrow> trigger_entity option \<times> converter" where
  "process_trigger trigger_file cv =
     (let trigger_name = src_stem trigger_file; trigger_id = ''trigger_'' @ trigger_name in
      case read_source trigger_file of
        Inl e \<Rightarrow> (None, record_error (''Error processing trigger '' @ src_path trigger_file @ '': '' @ e) cv)
      | Inr (code_text, md) \<Rightarrow>
          (let trig_object = extract_trigger_object code_text;
               trig_events = extract_trigger_events code_text;
               found = (case trig_object of None \<Rightarrow> False | Some obj \<Rightarrow> obj \<noteq> []);
               cv0 = (case trig_object of
                        None \<Rightarrow> cv
                      | Some obj \<Rightarrow>
                          if obj \<noteq> []
                          then append_edges
                                 [mk_edge (''object_'' @ obj) trigger_id ''HAS_TRIGGER''
                                    (''Trigger events: '' @ join '', '' trig_events)] cv
                          else cv);
               deps = extract_comprehensive_dependencies code_text trigger_name ''ApexTrigger''
           in case create_trigger_relationships trigger_id deps trig_object of
             (es, Some key) \<Rightarrow>
               (None, record_error (''Error processing trigger '' @ src_path trigger_file @ '': ''
                                    @ key_error key) (append_edges es cv0))
           | (es, None) \<Rightarrow>
               (let cv1 = append_edges es cv0 in
                (Some \<lparr>eid = trigger_id, kind = ''ApexTrigger'', name = trigger_name, metadata = md,
                        source_code = code_text, comprehensive_dependencies = deps,
                        trigger_events = (if found then trig_events else []),
                        trigger_object = (if found then trig_object else None)\<rparr>,
                 cv1\<lparr>stats := (stats cv1)\<lparr>triggers_processed := triggers_processed (stats cv1) + 1\<rparr>\<rparr>))))"

subsection \<open>\<open>convert_all_metadata\<close>\<close>

fun process_files :: "('f \<Rightarrow> converter \<Rightarrow> 'e option \<times> converter) \<Rightarrow> 'f list \<Rightarrow> converter
    \<Rightarrow> 'e list \<times> converter" where
  \<comment> \<open>one loop of \<open>convert_all_metadata\<close>: every file is processed in turn, and the records
     that come back are collected\<close>
  "process_files process [] cv = ([], cv)"
| "process_files process (f # fs) cv =
     (case process f cv of
        (None, cv1) \<Rightarrow> process_files process fs cv1
      | (Some data, cv1) \<Rightarrow> (case process_files process fs cv1 of (ds, cv2) \<Rightarrow> (data # ds, cv2)))"

record all_metadata =
  objects :: "object_entity list"
  layouts :: "layout_entity list"
  classes :: "class_entity list"
  triggers :: "trigger_entity list"
  workflows :: "component_entity list"
  all_relationships :: "edge list"    \<comment> \<open>key \<open>relationships\<close>\<close>

definition convert_all_metadata :: "input_tree \<Rightarrow> converter \<Rightarrow> all_metadata \<times> converter" where
  "convert_all_metadata tree cv =
     (let (os, cv1) = process_files (\<lambda>d c. case process_custom_object d c of (e, c') \<Rightarrow> (Some e, c'))
                        (object_dirs tree) cv;
          (ls, cv2) = process_files process_layout (layout_files tree) cv1;
          (cs, cv3) = process_files process_apex_class (class_files tree) cv2;
          (ts, cv4) = process_files process_trigger (trigger_files tree) cv3;
          (ws, cv5) = process_files process_workflow (workflow_files tree) cv4
      in (\<lparr>objects = os, layouts = ls, classes = cs, triggers = ts, workflows = ws,
            all_relationships = relationships cv5\<rparr>, cv5))"

section \<open>The object-level passes\<close>

definition context_edge :: "string \<Rightarrow> string \<Rightarrow> string \<Rightarrow> string \<Rightarrow> edge" where
  \<comment> \<open>the two parsers write the key \<open>context\<close>, not \<open>details\<close>\<close>
  "context_edge f t ty c = \<lparr>efrom = f, eto = t, etype = ty, details = None, econtext = Some c\<rparr>"

definition standard_relationships :: "edge list" where
  "standard_relationships =
     [ context_edge ''Contact'' ''Account'' ''BELONGS_TO'' ''Contact.AccountId lookup field'',
       context_edge ''Opportunity'' ''Account'' ''BELONGS_TO'' ''Opportunity.AccountId lookup field'',
       context_edge ''Opportunity'' ''Contact'' ''RELATES_TO'' ''Opportunity can have Contact roles'' ]"

subsection \<open>\<open>ComprehensiveMetadataParser.analyze_comprehensive_relationships\<close>\<close>








subsection \<open>\<open>EnhancedMetadataParser.analyze_cross_object_relationships\<close>\<close>

record enhanced_field =
  ef_name :: "string option"   \<comment> \<open>the text of \<open>fullName\<close>, which may be missing\<close>
  ef_type :: "string option"   \<comment> \<open>the text of \<open>type\<close>, or \<open>Unknown\<close>\<close>

record enhanced_object =
  eo_name :: string
  eo_fields :: "enhanced_field list"

datatype py_error = AttributeError

definition cross_field_edges :: "string \<Rightarrow> enhanced_field \<Rightarrow> py_error + edge list" where
  \<comment> \<open>\<open>field_name.endswith\<close> raises on a missing name, once the type test has failed\<close>
  "cross_field_edges obj_name field =
     (if ef_type field \<in> {Some ''Lookup'', Some ''MasterDetail''}
         \<or> (case ef_name field of None \<Rightarrow> False | Some n \<Rightarrow> ends_with ''Id'' n)
      then (if ef_name field = Some ''AccountId''
            then Inr [context_edge obj_name ''Account'' ''LOOKUP_TO'' (obj_name @ ''.AccountId field'')]
            else if ef_name field = Some ''ContactId''
            then Inr [context_edge obj_name ''Contact'' ''LOOKUP_TO'' (obj_name @ ''.ContactId field'')]
            else Inr [])
      else (case ef_name field of None \<Rightarrow> Inl AttributeError | Some n \<Rightarrow> Inr []))"

fun collect_edges :: "('a \<Rightarrow> py_error + edge list) \<Rightarrow> 'a list \<Rightarrow> py_error + edge list" where
  \<comment> \<open>a loop that appends what each step yields and ends at the first exception\<close>
  "collect_edges f [] = Inr []"
| "collect_edges f (x # xs) =
     (case f x of Inl e \<Rightarrow> Inl e
      | Inr es \<Rightarrow> (case collect_edges f xs of Inl e \<Rightarrow> Inl e | Inr es' \<Rightarrow> Inr (es @ es')))"

definition analyze_cross_object_relationships :: "enhanced_object list \<Rightarrow> py_error + edge list" where
  "analyze_cross_object_relationships objects_data =
     (case collect_edges (\<lambda>obj_data. collect_edges (cross_field_edges (eo_name obj_data))
                                       (eo_fields obj_data)) objects_data of
        Inl e \<Rightarrow> Inl e
      | Inr es \<Rightarrow> Inr (standard_relationships @ es))"

section \<open>What a group can capture\<close>

text \<open>
  A syntactic check on a pattern, used to show that no match of a pattern can capture a given
  character.
\<close>

fun atom_groupless :: "atom \<Rightarrow> bool" where
  "atom_groupless GOpen = False"
| "atom_groupless GClose = False"
| "atom_groupless a = True"

fun atom_avoids :: "char \<Rightarrow> atom \<Rightarrow> bool" where
  \<comment> \<open>matching case-sensitively, the atom never consumes the character\<close>
  "atom_avoids d (Lit l) = (d \<notin> set l)"
| "atom_avoids d (One c) = (\<not> cclass_matches False c d)"
| "atom_avoids d (Star c) = (\<not> cclass_matches False c d)"
| "atom_avoids d (Plus c) = (\<not> cclass_matches False c d)"
| "atom_avoids d (LazyStar c) = (\<not> cclass_matches False c d)"
| "atom_avoids d a = True"

fun captures_avoid :: "char \<Rightarrow> bool \<Rightarrow> node list \<Rightarrow> bool" where
  \<comment> \<open>every group of the pattern is closed after it was opened, over atoms that avoid the
     character; the flag says whether a group is open\<close>
  "captures_avoid d inside [] = True"
| "captures_avoid d inside (A a # ns) =
     (if a = GOpen then captures_avoid d True ns
      else if a = GClose then inside \<and> captures_avoid d False ns
      else (if inside then atom_avoids d a else True) \<and> captures_avoid d inside ns)"
| "captures_avoid d inside (Opt as # ns) =
     (list_all atom_groupless as \<and> (if inside then list_all (atom_avoids d) as else True)
      \<and> captures_avoid d inside ns)"
| "captures_avoid d inside (Alt alts # ns) =
     (list_all (list_all atom_groupless) alts
      \<and> (if inside then list_all (list_all (atom_avoids d)) alts else True)
      \<and> captures_avoid d inside ns)"

fun group_count :: "node list \<Rightarrow> nat" where
  \<comment> \<open>the number of groups of a pattern\<close>
  "group_count [] = 0"
| "group_count (n # ns) = (if n = A GClose then Suc (group_count ns) else group_count ns)"

definition open_avoids :: "char \<Rightarrow> mstate \<Rightarrow> bool" where
  \<comment> \<open>the text consumed since the group was opened does not hold the character\<close>
  "open_avoids d st = (\<exists>u. mark st = u @ rest st \<and> d \<notin> set u)"

definition caps_avoid :: "char \<Rightarrow> mstate \<Rightarrow> bool" where
  "caps_avoid d st = (\<forall>g \<in> set (caps st). d \<notin> set g)"

section \<open>Reading the impact analysis\<close>

definition to_affects :: "edge \<Rightarrow> impact" where
  "to_affects rel = \<lparr>component = eto rel, rel_type = etype rel, rel_details = get_details rel\<rparr>"

definition to_affected_by :: "edge \<Rightarrow> impact" where
  "to_affected_by rel = \<lparr>component = efrom rel, rel_type = etype rel, rel_details = get_details rel\<rparr>"

section \<open>The components of a run and their edges\<close>

text \<open>
  \<open>convert_all_metadata\<close> appends to \<open>self.relationships\<close> in five passes: the objects with
  their fields, list views and web links, the layouts, the classes, the triggers and the
  workflows. The definitions below name the edges that one component contributes to a run, the
  edge types of each pass, and the components whose ids differ.
\<close>

definition repeatable_edge_types :: "string list" where
  "repeatable_edge_types = [''CALLS_METHOD'', ''ACCESSES_FIELD'', ''CALLS_WEBSERVICE'',
     ''MODIFIES_FIELD'', ''SHOWS_RELATED_LIST'', ''DISPLAYS_RELATED_FIELD'']"

definition field_name_of :: "meta_file \<Rightarrow> string" where
  "field_name_of f = replace_str ''.field-meta'' [] (stem f)"

definition listview_name_of :: "meta_file \<Rightarrow> string" where
  "listview_name_of f = replace_str ''.listView-meta'' [] (stem f)"

definition weblink_name_of :: "meta_file \<Rightarrow> string" where
  "weblink_name_of f = replace_str ''.webLink-meta'' [] (stem f)"

definition layout_name_of :: "meta_file \<Rightarrow> string" where
  "layout_name_of f = replace_str ''.layout-meta'' [] (stem f)"

definition workflow_name_of :: "meta_file \<Rightarrow> string" where
  "workflow_name_of f = replace_str ''.workflow-meta'' [] (stem f)"

definition distinct_ids :: "input_tree \<Rightarrow> bool" where
  \<comment> \<open>the components of one kind have pairwise different names, hence ids\<close>
  "distinct_ids tree =
     (distinct (map dir_name (object_dirs tree))
      \<and> list_all (\<lambda>d. distinct (map field_name_of (field_files d))
                     \<and> distinct (map listview_name_of (listview_files d))
                     \<and> distinct (map weblink_name_of (weblink_files d))) (object_dirs tree)
      \<and> distinct (map (\<lambda>f. layout_id_of (layout_name_of f)) (layout_files tree))
      \<and> distinct (map src_stem (class_files tree))
      \<and> distinct (map src_stem (trigger_files tree))
      \<and> distinct (map workflow_name_of (workflow_files tree)))"

definition parsed_ok :: "meta_file \<Rightarrow> bool" where
  "parsed_ok f = (case parsed f of Inl _ \<Rightarrow> False | Inr _ \<Rightarrow> True)"

definition sub_file_edges :: "string \<Rightarrow> (meta_file \<Rightarrow> string) \<Rightarrow> string \<Rightarrow> string \<Rightarrow> meta_file list \<Rightarrow> edge list" where
  \<comment> \<open>the edges of one of the three loops of \<open>process_custom_object\<close>\<close>
  "sub_file_edges prefix name_of ty object_name fs =
     map (\<lambda>f. structural_edge (''object_'' @ object_name)
                (prefix @ object_name @ ''_'' @ name_of f) ty) (filter parsed_ok fs)"

definition object_pass_edges :: "object_dir \<Rightarrow> edge list" where
  "object_pass_edges d =
     sub_file_edges ''field_'' field_name_of ''HAS_FIELD'' (dir_name d) (field_files d)
     @ sub_file_edges ''listview_'' listview_name_of ''HAS_LISTVIEW'' (dir_name d) (listview_files d)
     @ sub_file_edges ''weblink_'' weblink_name_of ''HAS_WEBLINK'' (dir_name d) (weblink_files d)"

definition layout_pass_edges :: "meta_file \<Rightarrow> edge list" where
  "layout_pass_edges f =
     (case parsed f of
        Inl e \<Rightarrow> []
      | Inr root \<Rightarrow>
          create_layout_relationships (layout_id_of (layout_name_of f))
            (case split_on CHR ''-'' (layout_name_of f) of p # _ \<Rightarrow> p | [] \<Rightarrow> [])
            (extract_layout_fields root) (extract_related_lists root))"

definition class_pass_edges :: "source_file \<Rightarrow> edge list" where
  "class_pass_edges f =
     (case read_source f of
        Inl e \<Rightarrow> []
      | Inr (code_text, md) \<Rightarrow>
          fst (create_class_relationships (''class_'' @ src_stem f)
                 (extract_comprehensive_dependencies code_text (src_stem f) ''ApexClass'')))"

definition trigger_pass_edges :: "source_file \<Rightarrow> edge list" where
  "trigger_pass_edges f =
     (case read_source f of
        Inl e \<Rightarrow> []
      | Inr (code_text, md) \<Rightarrow>
          (case extract_trigger_object code_text of
             None \<Rightarrow> []
           | Some obj \<Rightarrow>
               if obj \<noteq> []
               then [mk_edge (''object_'' @ obj) (''trigger_'' @ src_stem f) ''HAS_TRIGGER''
                       (''Trigger events: '' @ join '', '' (extract_trigger_events code_text))]
               else [])
          @ fst (create_trigger_relationships (''trigger_'' @ src_stem f)
                   (extract_comprehensive_dependencies code_text (src_stem f) ''ApexTrigger'')
                   (extract_trigger_object code_text)))"

definition workflow_pass_edges :: "meta_file \<Rightarrow> edge list" where
  "workflow_pass_edges f =
     (case parsed f of
        Inl e \<Rightarrow> []
      | Inr root \<Rightarrow> [structural_edge (''object_'' @ workflow_name_of f)
                       (''workflow_'' @ workflow_name_of f) ''HAS_WORKFLOW''])"

definition object_edge_types :: "string list" where
  "object_edge_types = [''HAS_FIELD'', ''HAS_LISTVIEW'', ''HAS_WEBLINK'']"

definition layout_edge_types :: "string list" where
  "layout_edge_types = [''HAS_LAYOUT'', ''DISPLAYS_FIELD'', ''SHOWS_RELATED_LIST'',
     ''DISPLAYS_RELATED_FIELD'']"

definition class_edge_types :: "string list" where
  "class_edge_types = [''USES_OBJECT'', ''DEPENDS_ON_CLASS'', ''ACCESSES_FIELD'', ''CALLS_METHOD'',
     ''USES_CUSTOM_SETTING'', ''CALLS_WEBSERVICE'', ''USES_EMAIL_TEMPLATE'', ''USES_CUSTOM_LABEL'',
     ''USES_STATIC_RESOURCE'']"

definition trigger_edge_types :: "string list" where
  "trigger_edge_types = [''HAS_TRIGGER'', ''DELEGATES_TO_HANDLER'', ''CALLS_CLASS'',
     ''AFFECTS_OBJECT'', ''MODIFIES_FIELD'']"

section \<open>Fixtures of the spec\<close>

definition category_set :: "string list" where
  \<comment> \<open>the category set of a Dependency Record, as the spec lists it\<close>
  "category_set = [''objects'', ''classes'', ''fields'', ''methods'', ''custom_settings'',
     ''web_services'', ''email_templates'', ''custom_labels'', ''static_resources'']"

definition sample_dependencies :: dependencies where
  \<comment> \<open>a dependency record with every key, for the examples\<close>
  "sample_dependencies =
     [ (''objects'', [''Account'', ''Contact'']), (''classes'', [''AccountHandler'', ''Util'']),
       (''fields'', [''Account.Name'', ''Industry'']), (''methods'', [''Util.log'', ''Util.warn'']),
       (''custom_settings'', []), (''web_services'', []), (''email_templates'', []),
       (''custom_labels'', []), (''static_resources'', []), (''triggers'', []),
       (''workflows'', []) ]"

definition self_call_class :: source_file where
  "self_call_class = \<lparr>src_path = ''classes/Ab.cls'', src_stem = ''Ab'',
     src_text = Some (Inr ''Ab.c()''), src_meta = None\<rparr>"



definition good_field :: meta_file where
  "good_field = \<lparr>path = ''objects/Account/fields/Name.field-meta.xml'', stem = ''Name.field-meta'',
     parsed = Inr (Element ''CustomField'' [] None [Element ''fullName'' [] (Some ''Name'') []])\<rparr>"

definition bad_field :: meta_file where
  "bad_field = \<lparr>path = ''objects/Account/fields/Broken.field-meta.xml'', stem = ''Broken.field-meta'',
     parsed = Inl ''syntax error: line 1, column 0''\<rparr>"

definition other_field :: meta_file where
  "other_field = \<lparr>path = ''objects/Account/fields/Industry.field-meta.xml'',
     stem = ''Industry.field-meta'',
     parsed = Inr (Element ''CustomField'' [] None [Element ''fullName'' [] (Some ''Industry'') []])\<rparr>"


definition headerless_trigger :: source_file where
  "headerless_trigger = \<lparr>src_path = ''triggers/T.trigger'', src_stem = ''T'',
     src_text = Some (Inr ''trigger T on Account''), src_meta = None\<rparr>"

definition scenario_a :: string where
  \<comment> \<open>the trigger source of Scenario A of the spec\<close>
  "scenario_a = ''trigger T on Account (before insert) { AccountHandler.run(); }''"

definition scenario_a_file :: source_file where
  "scenario_a_file = \<lparr>src_path = ''triggers/T.trigger'', src_stem = ''T'',
     src_text = Some (Inr scenario_a), src_meta = None\<rparr>"

definition unique_edge_types :: "string list" where
  \<comment> \<open>the edge types of the class pass whose target is the bare entry of a category list\<close>
  "unique_edge_types = [''USES_OBJECT'', ''DEPENDS_ON_CLASS'', ''USES_CUSTOM_SETTING'',
     ''USES_EMAIL_TEMPLATE'', ''USES_CUSTOM_LABEL'', ''USES_STATIC_RESOURCE'']"

definition two_calls_tree :: input_tree where
  \<comment> \<open>an input tree with one class, which calls two methods of one other class\<close>
  "two_calls_tree = \<lparr>object_dirs = [], layout_files = [],
     class_files = [\<lparr>src_path = ''classes/Xy.cls'', src_stem = ''Xy'',
        src_text = Some (Inr ''Ab.c();Ab.d()''), src_meta = None\<rparr>],
     trigger_files = [], workflow_files = []\<rparr>"

definition two_queries :: string where
  \<comment> \<open>two queries whose fields \<open>A.B_C\<close> and \<open>A_B.C\<close> get the same id\<close>
  "two_queries = ''[SELECT B_C FROM A][SELECT C FROM A_B]''"

definition two_endpoints :: string where
  \<comment> \<open>\<open>.setEndpoint('http:').setEndpoint('http/')\<close>\<close>
  "two_endpoints = ''.setEndpoint('' @ [CHR 0x27] @ ''http:'' @ [CHR 0x27] @ '').setEndpoint(''
     @ [CHR 0x27] @ ''http/'' @ [CHR 0x27] @ '')''"

definition two_queries_tree :: input_tree where
  "two_queries_tree = \<lparr>object_dirs = [], layout_files = [],
     class_files = [\<lparr>src_path = ''classes/Xy.cls'', src_stem = ''Xy'',
        src_text = Some (Inr two_queries), src_meta = None\<rparr>],
     trigger_files = [], workflow_files = []\<rparr>"

definition two_endpoints_tree :: input_tree where
  "two_endpoints_tree = \<lparr>object_dirs = [], layout_files = [],
     class_files = [\<lparr>src_path = ''classes/Zw.cls'', src_stem = ''Zw'',
        src_text = Some (Inr two_endpoints), src_meta = None\<rparr>],
     trigger_files = [], workflow_files = []\<rparr>"

definition two_queries_trigger_tree :: input_tree where
  "two_queries_trigger_tree = \<lparr>object_dirs = [], layout_files = [], class_files = [],
     trigger_files = [\<lparr>src_path = ''triggers/T.trigger'', src_stem = ''T'',
        src_text = Some (Inr two_queries), src_meta = None\<rparr>],
     workflow_files = []\<rparr>"

definition related_list_xml :: xml where
  "related_list_xml = Element ''relatedList'' [] None
     [Element ''relatedList'' [] (Some ''Contact'') [], Element ''fields'' [] (Some ''Name'') []]"

definition two_lists_tree :: input_tree where
  \<comment> \<open>a layout that shows the related list of one object twice\<close>
  "two_lists_tree = \<lparr>object_dirs = [],
     layout_files = [\<lparr>path = ''layouts/Account-Main.layout-meta.xml'',
        stem = ''Account-Main.layout-meta'',
        parsed = Inr (Element ''Layout'' [] None [related_list_xml, related_list_xml])\<rparr>],
     class_files = [], trigger_files = [], workflow_files = []\<rparr>"

definition same_id_tree :: input_tree where
  \<comment> \<open>two layout files whose names differ and whose ids are the same\<close>
  "same_id_tree = \<lparr>object_dirs = [],
     layout_files = [\<lparr>path = ''layouts/Account-My Layout.layout-meta.xml'',
        stem = ''Account-My Layout.layout-meta'', parsed = Inr (Element ''Layout'' [] None [])\<rparr>,
       \<lparr>path = ''layouts/Account-My_Layout.layout-meta.xml'',
        stem = ''Account-My_Layout.layout-meta'', parsed = Inr (Element ''Layout'' [] None [])\<rparr>],
     class_files = [], trigger_files = [], workflow_files = []\<rparr>"

definition two_lists_layout :: meta_file where
  "two_lists_layout = \<lparr>path = ''layouts/Account-Main.layout-meta.xml'',
        stem = ''Account-Main.layout-meta'',
        parsed = Inr (Element ''Layout'' [] None [related_list_xml, related_list_xml])\<rparr>"

definition sample_tree :: input_tree where
  \<comment> \<open>an object with three field files, one of them malformed, a layout and a class\<close>
  "sample_tree = \<lparr>object_dirs = [\<lparr>dir_name = ''Account'', object_file = None,
        field_files = [good_field, bad_field, other_field], listview_files = [],
        weblink_files = []\<rparr>],
     layout_files = [two_lists_layout],
     class_files = [\<lparr>src_path = ''classes/Xy.cls'', src_stem = ''Xy'',
        src_text = Some (Inr ''Ab.c();Ab.d()''), src_meta = None\<rparr>],
     trigger_files = [], workflow_files = []\<rparr>"


definition nameless_field :: "enhanced_object list" where
  \<comment> \<open>Scenario B with one more field, whose \<open>fullName\<close> is missing\<close>
  "nameless_field = [\<lparr>eo_name = ''Contact'',
     eo_fields = [\<lparr>ef_name = Some ''AccountId'', ef_type = Some ''Lookup''\<rparr>,
                  \<lparr>ef_name = None, ef_type = Some ''Text''\<rparr>]\<rparr>]"

section \<open>Properties of the extractor\<close>

lemma map_of_extract:
  "map_of (extract_comprehensive_dependencies src n k) key
     = map_option clean (map_of (collect_dependencies src) key)"
  by (simp add: extract_comprehensive_dependencies_def map_of_map)

lemma distinct_clean: "distinct (clean xs)"
  by (simp add: clean_def)

lemma clean_long: "d \<in> set (clean xs) \<Longrightarrow> 1 < length d"
  by (simp add: clean_def)

lemma set_clean: "set (clean xs) \<subseteq> set xs"
  by (auto simp: clean_def)

lemma clean_Nil: "clean [] = []"
  by (simp add: clean_def)

lemma class_names_allowed: "c \<in> set (class_names m) \<Longrightarrow> c \<notin> set system_classes"
  by (auto simp: class_names_def split: rmatch.splits list.splits if_splits)

lemma method_names_allowed:
  "q \<in> set (method_names m) \<Longrightarrow> \<exists>c f. q = c @ ''.'' @ f \<and> c \<notin> set system_classes"
  by (auto simp: method_names_def split: rmatch.splits list.splits if_splits)

lemma collect_objects:
  "map_of (collect_dependencies src) ''objects''
     = Some (concat (map soql_objects (all_matches soql_patterns src))
             @ strs (all_matches dml_patterns src))"
  by (simp add: collect_dependencies_def)

lemma collect_classes:
  "map_of (collect_dependencies src) ''classes''
     = Some (concat (map class_names (all_matches class_patterns src)))"
  by (simp add: collect_dependencies_def)

lemma collect_fields:
  "map_of (collect_dependencies src) ''fields''
     = Some (concat (map soql_fields (all_matches soql_patterns src))
             @ strs (all_matches field_patterns src))"
  by (simp add: collect_dependencies_def)

lemma collect_methods:
  "map_of (collect_dependencies src) ''methods''
     = Some (concat (map method_names (all_matches class_patterns src)))"
  by (simp add: collect_dependencies_def)

lemma extract_entry:
  "(key, xs) \<in> set (extract_comprehensive_dependencies src n k) \<Longrightarrow> \<exists>ys. xs = clean ys"
  by (auto simp: extract_comprehensive_dependencies_def)

text \<open>
  C3, as the code has it. Every category list of the record the extractor returns is free of
  duplicates and of entries shorter than two characters. The denylist \<open>system_classes\<close> is
  applied where the class patterns are read, and only there: no entry of \<open>classes\<close> is on
  the denylist, and every entry of \<open>methods\<close> is \<open>Class.method\<close> for a class that is not on
  it. The other categories are not filtered against the denylist.
\<close>

theorem category_lists_clean:
  "(\<forall>(key, xs) \<in> set (extract_comprehensive_dependencies src n k).
      distinct xs \<and> (\<forall>d \<in> set xs. d \<noteq> [] \<and> 1 < length d))
   \<and> (\<exists>cs. map_of (extract_comprehensive_dependencies src n k) ''classes'' = Some cs
         \<and> (\<forall>c \<in> set cs. c \<notin> set system_classes))
   \<and> (\<exists>ms. map_of (extract_comprehensive_dependencies src n k) ''methods'' = Some ms
         \<and> (\<forall>q \<in> set ms. \<exists>c f. q = c @ ''.'' @ f \<and> c \<notin> set system_classes))"
proof (intro conjI)
  show "\<forall>(key, xs) \<in> set (extract_comprehensive_dependencies src n k).
      distinct xs \<and> (\<forall>d \<in> set xs. d \<noteq> [] \<and> 1 < length d)"
  proof (clarify, intro conjI ballI)
    fix key xs assume "(key, xs) \<in> set (extract_comprehensive_dependencies src n k)"
    then obtain ys where xs: "xs = clean ys" using extract_entry by blast
    show "distinct xs" by (simp add: xs distinct_clean)
    fix d assume "d \<in> set xs"
    then have "1 < length d" using clean_long xs by blast
    then show "d \<noteq> []" "1 < length d" by auto
  qed
next
  have "\<forall>c \<in> set (clean (concat (map class_names (all_matches class_patterns src)))).
          c \<notin> set system_classes"
    using set_clean class_names_allowed by fastforce
  then show "\<exists>cs. map_of (extract_comprehensive_dependencies src n k) ''classes'' = Some cs
         \<and> (\<forall>c \<in> set cs. c \<notin> set system_classes)"
    by (simp add: map_of_extract collect_classes)
next
  have "\<forall>q \<in> set (clean (concat (map method_names (all_matches class_patterns src)))).
          \<exists>c f. q = c @ ''.'' @ f \<and> c \<notin> set system_classes"
    using set_clean method_names_allowed by fastforce
  then show "\<exists>ms. map_of (extract_comprehensive_dependencies src n k) ''methods'' = Some ms
         \<and> (\<forall>q \<in> set ms. \<exists>c f. q = c @ ''.'' @ f \<and> c \<notin> set system_classes)"
    by (simp add: map_of_extract collect_methods)
qed

text \<open>
  The theorem at the source text \<open>Ab.c(); System.debug(1)\<close>: the call on the built-in class
  is dropped, the other class is kept.
\<close>

theorem category_lists_clean_witness:
  "(''classes'', [''Ab'']) \<in> set (extract_comprehensive_dependencies ''Ab.c(); System.debug(1)''
        ''Ab'' ''ApexClass'')
   \<and> distinct [''Ab''] \<and> 1 < length ''Ab'' \<and> ''Ab'' \<notin> set system_classes"
proof -
  let ?deps = "extract_comprehensive_dependencies ''Ab.c(); System.debug(1)'' ''Ab'' ''ApexClass''"
  have "clean (concat (map class_names (all_matches class_patterns ''Ab.c(); System.debug(1)'')))
          = [''Ab'']"
    by code_simp
  then have m: "map_of ?deps ''classes'' = Some [''Ab'']"
    by (simp add: map_of_extract collect_classes)
  then have mem: "(''classes'', [''Ab'']) \<in> set ?deps"
    by (rule map_of_SomeD)
  have all: "\<forall>(key, xs) \<in> set ?deps. distinct xs \<and> (\<forall>d \<in> set xs. d \<noteq> [] \<and> 1 < length d)"
    and cls: "\<exists>cs. map_of ?deps ''classes'' = Some cs \<and> (\<forall>c \<in> set cs. c \<notin> set system_classes)"
    using category_lists_clean [of "''Ab.c(); System.debug(1)''" "''Ab''" "''ApexClass''"]
    by blast+
  from all mem have "distinct [''Ab''] \<and> 1 < length ''Ab''"
    by fastforce
  moreover from cls m have "''Ab'' \<notin> set system_classes"
    by simp
  ultimately show ?thesis
    using mem by blast
qed

text \<open>
  C3 as stated fails for the categories other than \<open>classes\<close> and \<open>methods\<close>: the source
  text \<open>List<String>\<close> puts the denylisted name \<open>String\<close> into \<open>objects\<close>.
\<close>

theorem denylist_leak_counterexample:
  "map_of (extract_comprehensive_dependencies ''List<String>'' ''Ab'' ''ApexClass'') ''objects''
      = Some [''String'']
   \<and> ''String'' \<in> set system_classes"
proof -
  have "clean (concat (map soql_objects (all_matches soql_patterns ''List<String>''))
               @ strs (all_matches dml_patterns ''List<String>'')) = [''String'']"
    by code_simp
  then show ?thesis
    by (simp add: map_of_extract collect_objects system_classes_def)
qed

text \<open>
  C8. The record the extractor returns has every key of the category set, each mapped to a
  list; a category to which the patterns contribute nothing is mapped to the empty list.
\<close>

theorem every_category_present:
  "\<forall>key \<in> set category_set.
     (\<exists>xs. map_of (extract_comprehensive_dependencies src n k) key = Some xs)
     \<and> (map_of (collect_dependencies src) key = Some []
          \<longrightarrow> map_of (extract_comprehensive_dependencies src n k) key = Some [])"
  by (simp add: category_set_def map_of_extract clean_Nil) (simp add: collect_dependencies_def)

text \<open>The theorem at the empty source text: all nine categories are empty lists.\<close>

theorem every_category_present_witness:
  "map (map_of (collect_dependencies [])) category_set
     = [Some [], Some [], Some [], Some [], Some [], Some [], Some [], Some [], Some []]
   \<and> map (map_of (extract_comprehensive_dependencies [] ''Ab'' ''ApexClass'')) category_set
     = [Some [], Some [], Some [], Some [], Some [], Some [], Some [], Some [], Some []]"
proof -
  have c: "map (map_of (collect_dependencies [])) category_set
     = [Some [], Some [], Some [], Some [], Some [], Some [], Some [], Some [], Some []]"
    by code_simp
  then have "\<forall>key \<in> set category_set. map_of (collect_dependencies []) key = Some []"
    by (simp add: category_set_def)
  then have "\<forall>key \<in> set category_set.
      map_of (extract_comprehensive_dependencies [] ''Ab'' ''ApexClass'') key = Some []"
    using every_category_present [of "[]" "''Ab''" "''ApexClass''"] by blast
  then show ?thesis
    using c by (simp add: category_set_def)
qed

section \<open>Properties of the patterns\<close>

lemma star_pos_split:
  "pr \<in> set (star_pos ic c p s) \<Longrightarrow> \<exists>u. s = u @ snd pr \<and> (\<forall>x \<in> set u. cclass_matches ic c x)"
proof (induction s arbitrary: p)
  case Nil
  then show ?case by simp
next
  case (Cons x xs)
  show ?case
  proof (cases "pr = (p, x # xs)")
    case True
    then show ?thesis by simp
  next
    case False
    with Cons.prems have m: "cclass_matches ic c x" and "pr \<in> set (star_pos ic c (Some x) xs)"
      by (auto split: if_splits)
    then obtain u where "xs = u @ snd pr" "\<forall>y \<in> set u. cclass_matches ic c y"
      using Cons.IH by blast
    then have "x # xs = (x # u) @ snd pr \<and> (\<forall>y \<in> set (x # u). cclass_matches ic c y)"
      using m by simp
    then show ?thesis by blast
  qed
qed

lemma lazy_pos_split:
  "pr \<in> set (lazy_pos ic c p s) \<Longrightarrow> \<exists>u. s = u @ snd pr \<and> (\<forall>x \<in> set u. cclass_matches ic c x)"
proof (induction s arbitrary: p)
  case Nil
  then show ?case by simp
next
  case (Cons x xs)
  show ?case
  proof (cases "pr = (p, x # xs)")
    case True
    then show ?thesis by simp
  next
    case False
    with Cons.prems have m: "cclass_matches ic c x" and "pr \<in> set (lazy_pos ic c (Some x) xs)"
      by (auto split: if_splits)
    then obtain u where "xs = u @ snd pr" "\<forall>y \<in> set u. cclass_matches ic c y"
      using Cons.IH by blast
    then have "x # xs = (x # u) @ snd pr \<and> (\<forall>y \<in> set (x # u). cclass_matches ic c y)"
      using m by simp
    then show ?thesis by blast
  qed
qed

lemma match_lit_split:
  "match_lit False l p s = Some pr \<Longrightarrow> s = l @ snd pr"
proof (induction l arbitrary: p s)
  case Nil
  then show ?case by auto
next
  case (Cons a l)
  show ?case
  proof (cases s)
    case Nil
    with Cons.prems show ?thesis by simp
  next
    case (Cons x xs)
    with Cons.prems have "a = x" "match_lit False l (Some x) xs = Some pr"
      by (auto simp: char_eq_def split: if_splits)
    then show ?thesis
      using Cons.IH Cons by simp
  qed
qed

text \<open>What an atom consumes: the text before is the consumed part followed by the text after.\<close>

lemma m_atom_consumes:
  assumes "st' \<in> set (m_atom False a st)" and "atom_groupless a"
  shows "caps st' = caps st \<and> mark st' = mark st
         \<and> (\<exists>u. rest st = u @ rest st' \<and> (atom_avoids d a \<longrightarrow> d \<notin> set u))"
proof (cases a)
  case (Lit l)
  with assms obtain pr where "match_lit False l (prev st) (rest st) = Some pr" "st' = at_pos st pr"
    by (cases "match_lit False l (prev st) (rest st)") auto
  then show ?thesis
    using match_lit_split [of l "prev st" "rest st" pr] Lit by (auto simp: at_pos_def)
next
  case (One c)
  with assms obtain x xs where r: "rest st = x # xs" "cclass_matches False c x"
    "st' = at_pos st (Some x, xs)"
    by (cases "rest st") (auto split: if_splits)
  then have "rest st = [x] @ rest st' \<and> (atom_avoids d a \<longrightarrow> d \<notin> set [x])"
    using One by (auto simp: at_pos_def)
  then show ?thesis
    using r by (auto simp: at_pos_def)
next
  case (Star c)
  with assms obtain pr where "pr \<in> set (star_pos False c (prev st) (rest st))" "st' = at_pos st pr"
    by auto
  then show ?thesis
    using star_pos_split [of pr False c "prev st" "rest st"] Star by (auto simp: at_pos_def)
next
  case (Plus c)
  with assms obtain x xs pr where r: "rest st = x # xs" "cclass_matches False c x"
    and "pr \<in> set (star_pos False c (Some x) xs)" "st' = at_pos st pr"
    by (cases "rest st") (auto split: if_splits)
  then obtain u where "xs = u @ snd pr" "\<forall>y \<in> set u. cclass_matches False c y"
    using star_pos_split by blast
  then have "rest st = (x # u) @ rest st' \<and> (atom_avoids d a \<longrightarrow> d \<notin> set (x # u))"
    using r Plus \<open>st' = at_pos st pr\<close> by (auto simp: at_pos_def)
  then show ?thesis
    using \<open>st' = at_pos st pr\<close> by (auto simp: at_pos_def)
next
  case (LazyStar c)
  with assms obtain pr where "pr \<in> set (lazy_pos False c (prev st) (rest st))" "st' = at_pos st pr"
    by auto
  then show ?thesis
    using lazy_pos_split [of pr False c "prev st" "rest st"] LazyStar by (auto simp: at_pos_def)
next
  case WordB
  with assms show ?thesis by (auto split: if_splits)
next
  case GOpen
  with assms show ?thesis by simp
next
  case GClose
  with assms show ?thesis by simp
qed

lemma m_atoms_consumes:
  assumes "st' \<in> set (m_atoms False as st)" and "list_all atom_groupless as"
  shows "caps st' = caps st \<and> mark st' = mark st
         \<and> (\<exists>u. rest st = u @ rest st' \<and> (list_all (atom_avoids d) as \<longrightarrow> d \<notin> set u))"
  using assms
proof (induction as arbitrary: st)
  case Nil
  then show ?case by simp
next
  case (Cons a as)
  from Cons.prems obtain st1 where s1: "st1 \<in> set (m_atom False a st)"
    and s2: "st' \<in> set (m_atoms False as st1)"
    by auto
  from Cons.prems have g: "atom_groupless a" "list_all atom_groupless as" by auto
  from m_atom_consumes [OF s1 g(1), of d] obtain u where
    a: "caps st1 = caps st" "mark st1 = mark st" "rest st = u @ rest st1"
       "atom_avoids d a \<longrightarrow> d \<notin> set u"
    by blast
  from Cons.IH [OF s2 g(2)] obtain v where
    b: "caps st' = caps st1" "mark st' = mark st1" "rest st1 = v @ rest st'"
       "list_all (atom_avoids d) as \<longrightarrow> d \<notin> set v"
    by blast
  have "rest st = (u @ v) @ rest st' \<and> (list_all (atom_avoids d) (a # as) \<longrightarrow> d \<notin> set (u @ v))"
    using a b by auto
  then show ?case
    using a b by (metis)
qed

lemma open_avoids_step:
  assumes "open_avoids d st" and "mark st' = mark st" and "rest st = u @ rest st'" and "d \<notin> set u"
  shows "open_avoids d st'"
proof -
  from assms(1) obtain w where "mark st = w @ rest st" "d \<notin> set w"
    by (auto simp: open_avoids_def)
  then have "mark st' = (w @ u) @ rest st' \<and> d \<notin> set (w @ u)"
    using assms by simp
  then show ?thesis
    unfolding open_avoids_def by blast
qed

lemma atom_groupless_iff: "atom_groupless a = (a \<noteq> GOpen \<and> a \<noteq> GClose)"
  by (cases a) simp_all

lemma captures_avoid_sound:
  assumes "captures_avoid d inside ns" and "inside \<longrightarrow> open_avoids d st" and "caps_avoid d st"
    and "st' \<in> set (m_nodes False ns st)"
  shows "caps_avoid d st' \<and> length (caps st') = length (caps st) + group_count ns"
  using assms
proof (induction d inside ns arbitrary: st rule: captures_avoid.induct)
  case (1 d inside)
  then show ?case by simp
next
  case (2 d inside a ns)
  from "2.prems"(4) obtain st1 where s: "st1 \<in> set (m_atom False a st)"
    "st' \<in> set (m_nodes False ns st1)"
    by auto
  show ?case
  proof (cases "a = GOpen")
    case True
    with s have st1: "st1 = st\<lparr>mark := rest st\<rparr>" by simp
    have "open_avoids d st1" by (simp add: st1 open_avoids_def)
    moreover have "caps_avoid d st1" using "2.prems"(3) by (simp add: st1 caps_avoid_def)
    moreover have "captures_avoid d True ns" using "2.prems"(1) True by simp
    ultimately have "caps_avoid d st' \<and> length (caps st') = length (caps st1) + group_count ns"
      using "2.IH"(1) [OF True, of st1] s(2) by simp
    then show ?thesis using True st1 by simp
  next
    case False
    show ?thesis
    proof (cases "a = GClose")
      case True
      with s have st1:
        "st1 = st\<lparr>caps := caps st @ [take (length (mark st) - length (rest st)) (mark st)]\<rparr>"
        by simp
      from "2.prems"(1) True have ins: "inside" and rest: "captures_avoid d False ns"
        by simp_all
      from "2.prems"(2) ins obtain u where u: "mark st = u @ rest st" "d \<notin> set u"
        by (auto simp: open_avoids_def)
      then have "take (length (mark st) - length (rest st)) (mark st) = u" by simp
      then have "caps_avoid d st1" using "2.prems"(3) u by (simp add: st1 caps_avoid_def)
      then have "caps_avoid d st' \<and> length (caps st') = length (caps st1) + group_count ns"
        using "2.IH"(2) [OF False True, of st1] rest s(2) by simp
      then show ?thesis using True st1 by simp
    next
      case nc: False
      have g: "atom_groupless a" using False nc by (simp add: atom_groupless_iff)
      from m_atom_consumes [OF s(1) g, of d] obtain u where
        a: "caps st1 = caps st" "mark st1 = mark st" "rest st = u @ rest st1"
           "atom_avoids d a \<longrightarrow> d \<notin> set u" by auto
      from "2.prems"(1) False nc have av: "inside \<longrightarrow> atom_avoids d a"
        and rest: "captures_avoid d inside ns"
        by (simp_all split: if_splits)
      have "inside \<longrightarrow> open_avoids d st1"
        using "2.prems"(2) a av open_avoids_step [of d st st1 u] by auto
      moreover have "caps_avoid d st1" using "2.prems"(3) a by (simp add: caps_avoid_def)
      ultimately have "caps_avoid d st' \<and> length (caps st') = length (caps st1) + group_count ns"
        using "2.IH"(3) [OF False nc, of st1] rest s(2) by simp
      then show ?thesis using a nc by simp
    qed
  qed
next
  case (3 d inside as ns)
  from "3.prems" obtain st1 where s: "st1 \<in> set (m_atoms False as st) \<or> st1 = st"
    "st' \<in> set (m_nodes False ns st1)"
    by auto
  have "caps st1 = caps st \<and> mark st1 = mark st
         \<and> (\<exists>u. rest st = u @ rest st1 \<and> (list_all (atom_avoids d) as \<longrightarrow> d \<notin> set u))"
    using s(1) m_atoms_consumes [of st1 as st d] "3.prems"(1) by auto
  then obtain u where
    a: "caps st1 = caps st" "mark st1 = mark st" "rest st = u @ rest st1"
       "list_all (atom_avoids d) as \<longrightarrow> d \<notin> set u" by auto
  have "inside \<longrightarrow> open_avoids d st1"
    using "3.prems" a open_avoids_step [of d st st1 u] by auto
  moreover have "caps_avoid d st1" using "3.prems" a by (simp add: caps_avoid_def)
  ultimately show ?case using "3.IH" [of st1] "3.prems" s a by simp
next
  case (4 d inside alts ns)
  from "4.prems" obtain as st1 where s: "as \<in> set alts" "st1 \<in> set (m_atoms False as st)"
    "st' \<in> set (m_nodes False ns st1)"
    by auto
  have g: "list_all atom_groupless as" "inside \<longrightarrow> list_all (atom_avoids d) as"
    using "4.prems"(1) s(1) by (auto simp: list_all_iff)
  from m_atoms_consumes [OF s(2) g(1), of d] obtain u where
    a: "caps st1 = caps st" "mark st1 = mark st" "rest st = u @ rest st1"
       "list_all (atom_avoids d) as \<longrightarrow> d \<notin> set u" by auto
  have "inside \<longrightarrow> open_avoids d st1"
    using "4.prems" a g open_avoids_step [of d st st1 u] by auto
  moreover have "caps_avoid d st1" using "4.prems" a by (simp add: caps_avoid_def)
  ultimately show ?case using "4.IH" [of st1] "4.prems" s a by simp
qed

lemma match_at_mem:
  "match_at re p s = Some st \<Longrightarrow>
   st \<in> set (m_nodes (ignorecase re) (nodes re) \<lparr>prev = p, rest = s, mark = s, caps = []\<rparr>)"
  by (auto simp: match_at_def split: list.splits)

lemma findall_from_mem:
  "m \<in> set (findall_from re p s k) \<Longrightarrow>
   \<exists>p' s' st. match_at re p' s' = Some st \<and> m = match_value s' st"
proof (induction re p s k rule: findall_from.induct)
  case (1 re p k)
  show ?case
  proof (cases "match_at re p []")
    case None
    with 1 show ?thesis by (cases "k = 0") simp_all
  next
    case (Some st)
    with 1 have "m = match_value [] st" by (cases "k = 0") simp_all
    with Some show ?thesis by blast
  qed
next
  case (2 re p x xs k)
  show ?case
  proof (cases "0 < k")
    case True
    with 2 show ?thesis by simp
  next
    case False
    show ?thesis
    proof (cases "match_at re p (x # xs)")
      case None
      with 2 False show ?thesis by simp
    next
      case (Some st)
      with "2.prems" False have "m = match_value (x # xs) st
          \<or> m \<in> set (findall_from re (Some x) xs (length xs - length (rest st)))"
        by simp
      then show ?thesis
        using Some "2.IH"(3) [OF False Some] by blast
    qed
  qed
qed

lemma findall_group_avoids:
  assumes "\<not> ignorecase re" and "captures_avoid d False (nodes re)" and "group_count (nodes re) = 1"
    and "g \<in> set (strs (findall re s))"
  shows "d \<notin> set g"
proof -
  from assms(4) have "MStr g \<in> set (findall re s)"
    by (auto simp: strs_def split: rmatch.splits)
  then obtain p' s' st where st: "match_at re p' s' = Some st" "MStr g = match_value s' st"
    unfolding findall_def using findall_from_mem by blast
  let ?st0 = "\<lparr>prev = p', rest = s', mark = s', caps = []\<rparr>"
  have "st \<in> set (m_nodes False (nodes re) ?st0)"
    using match_at_mem [OF st(1)] assms(1) by simp
  moreover have "caps_avoid d ?st0" by (simp add: caps_avoid_def)
  ultimately have "caps_avoid d st \<and> length (caps st) = length (caps ?st0) + group_count (nodes re)"
    using captures_avoid_sound [OF assms(2), of ?st0 st] by simp
  then have c: "caps_avoid d st" "length (caps st) = 1"
    using assms(3) by simp_all
  then obtain g0 where "caps st = [g0]"
    by (cases "caps st") auto
  then show ?thesis
    using c(1) st(2) by (simp add: match_value_def caps_avoid_def)
qed

lemma strs_all_matches:
  "set (strs (all_matches ps src)) = (\<Union>p \<in> set ps. set (strs (findall p src)))"
  by (auto simp: strs_def all_matches_def)

lemma field_patterns_avoid_dot:
  "re \<in> set field_patterns \<Longrightarrow>
   \<not> ignorecase re \<and> captures_avoid CHR ''.'' False (nodes re) \<and> group_count (nodes re) = 1"
  by (auto simp: field_patterns_def object_group_def quote_chars_def
      is_upper_def is_alpha_def is_lower_def is_digit_def is_ident_def code_def)

lemma bare_field_names:
  "f \<in> set (strs (all_matches field_patterns src)) \<Longrightarrow> \<not> has_dot f"
  unfolding has_dot_def strs_all_matches
  using findall_group_avoids field_patterns_avoid_dot by blast

section \<open>Properties of the synthesizer\<close>

lemma run_loops_Some:
  "map_of deps key = Some xs \<Longrightarrow>
   run_loops ((key, body) # ls) deps = (body xs @ fst (run_loops ls deps), snd (run_loops ls deps))"
  by (simp split: prod.splits)

lemma fst_run_loops_Cons:
  "fst (run_loops ((key, body) # ls) deps)
     = (case map_of deps key of None \<Rightarrow> [] | Some xs \<Rightarrow> body xs @ fst (run_loops ls deps))"
  by (simp split: option.splits prod.splits)

lemma filter_run_loops_empty:
  assumes "\<And>key body xs e. (key, body) \<in> set ls \<Longrightarrow> e \<in> set (body xs) \<Longrightarrow> \<not> P e"
  shows "filter P (fst (run_loops ls deps)) = []"
  using assms
proof (induction ls)
  case Nil
  then show ?case by simp
next
  case (Cons l ls)
  obtain key body where l: "l = (key, body)" by (cases l)
  have tl: "filter P (fst (run_loops ls deps)) = []"
    using Cons by (meson list.set_intros(2))
  have hd: "\<And>xs. filter P (body xs) = []"
    using Cons.prems [of key body] by (simp add: l filter_empty_conv)
  show ?case
    unfolding l fst_run_loops_Cons by (simp add: tl hd split: option.splits)
qed

lemma etype_mk_edge: "etype (mk_edge f t ty d) = ty"
  by (simp add: mk_edge_def)

lemma class_uses_object:
  assumes "map_of deps ''objects'' = Some os"
  shows "filter (\<lambda>e. etype e = ''USES_OBJECT'') (fst (create_class_relationships cid deps))
           = map (\<lambda>obj. mk_edge cid (''object_'' @ obj) ''USES_OBJECT''
                    ''References object in SOQL/DML operations'') os"
proof -
  let ?P = "\<lambda>e. etype e = ''USES_OBJECT''"
  let ?body = "map (\<lambda>obj. mk_edge cid (''object_'' @ obj) ''USES_OBJECT''
                    ''References object in SOQL/DML operations'')"
  have tail: "filter ?P (fst (run_loops (tl (class_loops cid)) deps)) = []"
    by (rule filter_run_loops_empty)
       (auto simp: class_loops_def etype_mk_edge split: if_splits prod.splits)
  have unf: "class_loops cid = (''objects'', ?body) # tl (class_loops cid)"
    by (simp add: class_loops_def)
  have "fst (create_class_relationships cid deps)
          = ?body os @ fst (run_loops (tl (class_loops cid)) deps)"
    unfolding create_class_relationships_def
    by (subst unf) (simp only: run_loops_Some [OF assms] fst_conv)
  then show ?thesis
    using tail by (simp add: etype_mk_edge)
qed

lemma trigger_affects_object:
  assumes "map_of deps ''classes'' = Some cs" and "map_of deps ''objects'' = Some os"
  shows "filter (\<lambda>e. etype e = ''AFFECTS_OBJECT'') (fst (create_trigger_relationships tid deps (Some owner)))
           = map (\<lambda>obj. mk_edge tid (''object_'' @ obj) ''AFFECTS_OBJECT''
                    (''Trigger performs operations on '' @ obj)) (filter (\<lambda>obj. obj \<noteq> owner) os)"
proof -
  let ?P = "\<lambda>e. etype e = ''AFFECTS_OBJECT''"
  let ?ls = "trigger_loops tid (Some owner)"
  let ?b1 = "map (\<lambda>cls.
          if contains ''Handler'' cls \<or> contains ''Helper'' cls
          then mk_edge tid (''class_'' @ cls) ''DELEGATES_TO_HANDLER''
                 ''Trigger delegates business logic to handler class''
          else mk_edge tid (''class_'' @ cls) ''CALLS_CLASS''
                 ''Trigger calls methods in this class'')"
  let ?b2 = "\<lambda>os. concat (map (\<lambda>obj.
          if Some obj \<noteq> Some owner
          then [mk_edge tid (''object_'' @ obj) ''AFFECTS_OBJECT''
                  (''Trigger performs operations on '' @ obj)]
          else []) os)"
  have tail: "filter ?P (fst (run_loops (drop 2 ?ls) deps)) = []"
    by (rule filter_run_loops_empty)
       (auto simp: trigger_loops_def etype_mk_edge split: if_splits prod.splits)
  have unf: "?ls = (''classes'', ?b1) # (''objects'', ?b2) # drop 2 ?ls"
    by (simp add: trigger_loops_def)
  have all: "fst (create_trigger_relationships tid deps (Some owner))
          = ?b1 cs @ ?b2 os @ fst (run_loops (drop 2 ?ls) deps)"
    unfolding create_trigger_relationships_def
    by (subst unf) (simp only: run_loops_Some [OF assms(1)] run_loops_Some [OF assms(2)] fst_conv)
  have objs: "filter ?P (?b2 os)
              = map (\<lambda>obj. mk_edge tid (''object_'' @ obj) ''AFFECTS_OBJECT''
                    (''Trigger performs operations on '' @ obj)) (filter (\<lambda>obj. obj \<noteq> owner) os)"
    by (induction os) (simp_all add: etype_mk_edge)
  have cls: "filter ?P (?b1 cs) = []"
    by (induction cs) (simp_all add: etype_mk_edge)
  show ?thesis
    unfolding all filter_append tail objs cls by simp
qed

lemma class_fields_filter:
  "filter (\<lambda>e. etype e = ''ACCESSES_FIELD'') (concat (map (\<lambda>field.
          if has_dot field
          then (case split1 CHR ''.'' field of (obj_name, field_name) \<Rightarrow>
                  [mk_edge cid (''field_'' @ obj_name @ ''_'' @ field_name) ''ACCESSES_FIELD''
                     (''Accesses field '' @ field_name @ '' on '' @ obj_name)])
          else []) fs))
     = map (\<lambda>field. mk_edge cid
                    (''field_'' @ fst (split1 CHR ''.'' field) @ ''_'' @ snd (split1 CHR ''.'' field))
                    ''ACCESSES_FIELD''
                    (''Accesses field '' @ snd (split1 CHR ''.'' field) @ '' on ''
                       @ fst (split1 CHR ''.'' field)))
               (filter has_dot fs)"
proof (induction fs)
  case Nil
  show ?case by simp
next
  case (Cons f fs)
  obtain a b where ab: "split1 CHR ''.'' f = (a, b)" by (cases "split1 CHR ''.'' f")
  show ?case
  proof (cases "has_dot f")
    case True
    then show ?thesis using Cons.IH by (simp add: ab etype_mk_edge)
  next
    case False
    then show ?thesis using Cons.IH by simp
  qed
qed

lemma trigger_fields_filter:
  "filter (\<lambda>e. etype e = ''MODIFIES_FIELD'') (concat (map (\<lambda>field.
          if has_dot field
          then (case split1 CHR ''.'' field of (obj_name, field_name) \<Rightarrow>
                  [mk_edge tid (''field_'' @ obj_name @ ''_'' @ field_name) ''MODIFIES_FIELD''
                     (''Trigger modifies or reads field '' @ field_name)])
          else []) fs))
     = map (\<lambda>field. mk_edge tid
                    (''field_'' @ fst (split1 CHR ''.'' field) @ ''_'' @ snd (split1 CHR ''.'' field))
                    ''MODIFIES_FIELD''
                    (''Trigger modifies or reads field '' @ snd (split1 CHR ''.'' field)))
               (filter has_dot fs)"
proof (induction fs)
  case Nil
  show ?case by simp
next
  case (Cons f fs)
  obtain a b where ab: "split1 CHR ''.'' f = (a, b)" by (cases "split1 CHR ''.'' f")
  show ?case
  proof (cases "has_dot f")
    case True
    then show ?thesis using Cons.IH by (simp add: ab etype_mk_edge)
  next
    case False
    then show ?thesis using Cons.IH by simp
  qed
qed

lemma class_accesses_field:
  assumes "map_of deps ''objects'' = Some os" and "map_of deps ''classes'' = Some cs"
    and "map_of deps ''fields'' = Some fs"
  shows "filter (\<lambda>e. etype e = ''ACCESSES_FIELD'') (fst (create_class_relationships cid deps))
           = map (\<lambda>field. mk_edge cid
                    (''field_'' @ fst (split1 CHR ''.'' field) @ ''_'' @ snd (split1 CHR ''.'' field))
                    ''ACCESSES_FIELD''
                    (''Accesses field '' @ snd (split1 CHR ''.'' field) @ '' on ''
                       @ fst (split1 CHR ''.'' field)))
               (filter has_dot fs)"
proof -
  let ?P = "\<lambda>e. etype e = ''ACCESSES_FIELD''"
  let ?ls = "class_loops cid"
  let ?b1 = "map (\<lambda>obj. mk_edge cid (''object_'' @ obj) ''USES_OBJECT''
          ''References object in SOQL/DML operations'')"
  let ?b2 = "map (\<lambda>cls. mk_edge cid (''class_'' @ cls) ''DEPENDS_ON_CLASS''
          ''Calls methods or instantiates class'')"
  let ?b3 = "\<lambda>fs. concat (map (\<lambda>field.
          if has_dot field
          then (case split1 CHR ''.'' field of (obj_name, field_name) \<Rightarrow>
                  [mk_edge cid (''field_'' @ obj_name @ ''_'' @ field_name) ''ACCESSES_FIELD''
                     (''Accesses field '' @ field_name @ '' on '' @ obj_name)])
          else []) fs)"
  have tail: "filter ?P (fst (run_loops (drop 3 ?ls) deps)) = []"
    by (rule filter_run_loops_empty)
       (auto simp: class_loops_def etype_mk_edge split: if_splits prod.splits)
  have unf: "?ls = (''objects'', ?b1) # (''classes'', ?b2) # (''fields'', ?b3) # drop 3 ?ls"
    by (simp add: class_loops_def)
  have all: "fst (create_class_relationships cid deps)
          = ?b1 os @ ?b2 cs @ ?b3 fs @ fst (run_loops (drop 3 ?ls) deps)"
    unfolding create_class_relationships_def
    by (subst unf) (simp only: run_loops_Some [OF assms(1)] run_loops_Some [OF assms(2)]
        run_loops_Some [OF assms(3)] fst_conv)
  have f1: "filter ?P (?b1 os) = []"
    by (induction os) (simp_all add: etype_mk_edge)
  have f2: "filter ?P (?b2 cs) = []"
    by (induction cs) (simp_all add: etype_mk_edge)
  have f3: "filter ?P (?b3 fs)
              = map (\<lambda>field. mk_edge cid
                    (''field_'' @ fst (split1 CHR ''.'' field) @ ''_'' @ snd (split1 CHR ''.'' field))
                    ''ACCESSES_FIELD''
                    (''Accesses field '' @ snd (split1 CHR ''.'' field) @ '' on ''
                       @ fst (split1 CHR ''.'' field)))
               (filter has_dot fs)"
    by (rule class_fields_filter)
  show ?thesis
    unfolding all filter_append tail f1 f2 f3 by simp
qed

lemma trigger_modifies_field:
  assumes "map_of deps ''objects'' = Some os" and "map_of deps ''classes'' = Some cs"
    and "map_of deps ''fields'' = Some fs"
  shows "filter (\<lambda>e. etype e = ''MODIFIES_FIELD'') (fst (create_trigger_relationships tid deps owner))
           = map (\<lambda>field. mk_edge tid
                    (''field_'' @ fst (split1 CHR ''.'' field) @ ''_'' @ snd (split1 CHR ''.'' field))
                    ''MODIFIES_FIELD''
                    (''Trigger modifies or reads field '' @ snd (split1 CHR ''.'' field)))
               (filter has_dot fs)"
proof -
  let ?P = "\<lambda>e. etype e = ''MODIFIES_FIELD''"
  let ?ls = "trigger_loops tid owner"
  let ?b1 = "map (\<lambda>cls.
          if contains ''Handler'' cls \<or> contains ''Helper'' cls
          then mk_edge tid (''class_'' @ cls) ''DELEGATES_TO_HANDLER''
                 ''Trigger delegates business logic to handler class''
          else mk_edge tid (''class_'' @ cls) ''CALLS_CLASS''
                 ''Trigger calls methods in this class'')"
  let ?b2 = "\<lambda>os. concat (map (\<lambda>obj.
          if Some obj \<noteq> owner
          then [mk_edge tid (''object_'' @ obj) ''AFFECTS_OBJECT''
                  (''Trigger performs operations on '' @ obj)]
          else []) os)"
  let ?b3 = "\<lambda>fs. concat (map (\<lambda>field.
          if has_dot field
          then (case split1 CHR ''.'' field of (obj_name, field_name) \<Rightarrow>
                  [mk_edge tid (''field_'' @ obj_name @ ''_'' @ field_name) ''MODIFIES_FIELD''
                     (''Trigger modifies or reads field '' @ field_name)])
          else []) fs)"
  have unf: "?ls = [(''classes'', ?b1), (''objects'', ?b2), (''fields'', ?b3)]"
    by (simp add: trigger_loops_def)
  have all: "fst (create_trigger_relationships tid deps owner) = ?b1 cs @ ?b2 os @ ?b3 fs"
    unfolding create_trigger_relationships_def
    by (subst unf) (simp add: assms)
  have f1: "filter ?P (?b1 cs) = []"
    by (induction cs) (simp_all add: etype_mk_edge)
  have f2: "filter ?P (?b2 os) = []"
    by (induction os) (simp_all add: etype_mk_edge)
  have f3: "filter ?P (?b3 fs)
              = map (\<lambda>field. mk_edge tid
                    (''field_'' @ fst (split1 CHR ''.'' field) @ ''_'' @ snd (split1 CHR ''.'' field))
                    ''MODIFIES_FIELD''
                    (''Trigger modifies or reads field '' @ snd (split1 CHR ''.'' field)))
               (filter has_dot fs)"
    by (rule trigger_fields_filter)
  show ?thesis
    unfolding all filter_append f1 f2 f3 by simp
qed

text \<open>
  C6. For a dependency record with the keys the loops read, the \<open>AFFECTS_OBJECT\<close> edges of a
  trigger with owning object \<open>owner\<close> are one edge per entry of \<open>objects\<close> other than
  \<open>owner\<close>, in order, and the \<open>USES_OBJECT\<close> edges of a class are one edge per entry of
  \<open>objects\<close>, none left out.
\<close>

theorem objects_category_edges:
  assumes "map_of deps ''classes'' = Some cs" and "map_of deps ''objects'' = Some os"
  shows "filter (\<lambda>e. etype e = ''AFFECTS_OBJECT'')
           (fst (create_trigger_relationships trigger_id deps (Some owner)))
         = map (\<lambda>obj. mk_edge trigger_id (''object_'' @ obj) ''AFFECTS_OBJECT''
                  (''Trigger performs operations on '' @ obj)) (filter (\<lambda>obj. obj \<noteq> owner) os)
       \<and> filter (\<lambda>e. etype e = ''USES_OBJECT'') (fst (create_class_relationships class_id deps))
         = map (\<lambda>obj. mk_edge class_id (''object_'' @ obj) ''USES_OBJECT''
                  ''References object in SOQL/DML operations'') os"
  using trigger_affects_object [OF assms] class_uses_object [OF assms(2)] by simp

text \<open>The theorem at the sample record, for a trigger on \<open>Account\<close>.\<close>

theorem objects_category_edges_witness:
  "map_of sample_dependencies ''classes'' = Some [''AccountHandler'', ''Util'']
   \<and> map_of sample_dependencies ''objects'' = Some [''Account'', ''Contact'']
   \<and> filter (\<lambda>e. etype e = ''AFFECTS_OBJECT'')
        (fst (create_trigger_relationships ''trigger_T'' sample_dependencies (Some ''Account'')))
      = [mk_edge ''trigger_T'' ''object_Contact'' ''AFFECTS_OBJECT''
           ''Trigger performs operations on Contact'']
   \<and> filter (\<lambda>e. etype e = ''USES_OBJECT'')
        (fst (create_class_relationships ''class_Ab'' sample_dependencies))
      = [mk_edge ''class_Ab'' ''object_Account'' ''USES_OBJECT''
           ''References object in SOQL/DML operations'',
         mk_edge ''class_Ab'' ''object_Contact'' ''USES_OBJECT''
           ''References object in SOQL/DML operations'']"
proof -
  have c: "map_of sample_dependencies ''classes'' = Some [''AccountHandler'', ''Util'']"
    and o: "map_of sample_dependencies ''objects'' = Some [''Account'', ''Contact'']"
    by (simp_all add: sample_dependencies_def)
  show ?thesis
    using c o objects_category_edges [OF c o, of "''trigger_T''" "''Account''" "''class_Ab''"]
    by simp
qed

text \<open>
  C9. The \<open>ACCESSES_FIELD\<close> edges of a class and the \<open>MODIFIES_FIELD\<close> edges of a trigger are
  one edge per entry of \<open>fields\<close> that contains a dot, split at its first dot into object and
  field name; an entry without a dot yields no edge. The names the three field patterns
  (assignment or comparison after a dot, dynamic get, dynamic put) capture never contain a
  dot, so none of them yields an edge.
\<close>

theorem field_edges_need_dot:
  assumes "map_of deps ''objects'' = Some os" and "map_of deps ''classes'' = Some cs"
    and "map_of deps ''fields'' = Some fs"
  shows "filter (\<lambda>e. etype e = ''ACCESSES_FIELD'') (fst (create_class_relationships class_id deps))
           = map (\<lambda>field. mk_edge class_id
                    (''field_'' @ fst (split1 CHR ''.'' field) @ ''_'' @ snd (split1 CHR ''.'' field))
                    ''ACCESSES_FIELD''
                    (''Accesses field '' @ snd (split1 CHR ''.'' field) @ '' on ''
                       @ fst (split1 CHR ''.'' field)))
               (filter has_dot fs)
       \<and> filter (\<lambda>e. etype e = ''MODIFIES_FIELD'')
           (fst (create_trigger_relationships trigger_id deps owner))
           = map (\<lambda>field. mk_edge trigger_id
                    (''field_'' @ fst (split1 CHR ''.'' field) @ ''_'' @ snd (split1 CHR ''.'' field))
                    ''MODIFIES_FIELD''
                    (''Trigger modifies or reads field '' @ snd (split1 CHR ''.'' field)))
               (filter has_dot fs)
       \<and> (\<forall>f \<in> set (strs (all_matches field_patterns src)). \<not> has_dot f)"
  using class_accesses_field [OF assms] trigger_modifies_field [OF assms] bare_field_names
  by blast

text \<open>
  The theorem at the sample record, whose \<open>fields\<close> hold one dotted and one bare name, and
  at the source text \<open>a.Name = 1\<close>, from which the first field pattern captures \<open>Name\<close>.
\<close>

theorem field_edges_need_dot_witness:
  "map_of sample_dependencies ''objects'' = Some [''Account'', ''Contact'']
   \<and> map_of sample_dependencies ''classes'' = Some [''AccountHandler'', ''Util'']
   \<and> map_of sample_dependencies ''fields'' = Some [''Account.Name'', ''Industry'']
   \<and> filter (\<lambda>e. etype e = ''ACCESSES_FIELD'')
        (fst (create_class_relationships ''class_Ab'' sample_dependencies))
      = [mk_edge ''class_Ab'' ''field_Account_Name'' ''ACCESSES_FIELD''
           ''Accesses field Name on Account'']
   \<and> filter (\<lambda>e. etype e = ''MODIFIES_FIELD'')
        (fst (create_trigger_relationships ''trigger_T'' sample_dependencies (Some ''Account'')))
      = [mk_edge ''trigger_T'' ''field_Account_Name'' ''MODIFIES_FIELD''
           ''Trigger modifies or reads field Name'']
   \<and> strs (all_matches field_patterns ''a.Name = 1'') = [''Name'']
   \<and> \<not> has_dot ''Name''"
proof -
  have o: "map_of sample_dependencies ''objects'' = Some [''Account'', ''Contact'']"
    and c: "map_of sample_dependencies ''classes'' = Some [''AccountHandler'', ''Util'']"
    and f: "map_of sample_dependencies ''fields'' = Some [''Account.Name'', ''Industry'']"
    by (simp_all add: sample_dependencies_def)
  have m: "strs (all_matches field_patterns ''a.Name = 1'') = [''Name'']"
    by code_simp
  have "\<not> has_dot ''Name''"
    using m field_edges_need_dot [OF o c f, of "''class_Ab''" "''trigger_T''" "Some ''Account''"
        "''a.Name = 1''"]
    by simp
  then show ?thesis
    using o c f m
      field_edges_need_dot [OF o c f, of "''class_Ab''" "''trigger_T''" "Some ''Account''"
        "''a.Name = 1''"]
    by (simp add: has_dot_def split1_def)
qed

section \<open>Properties of the impact analysis\<close>

text \<open>
  What \<open>generate_impact_analysis\<close> returns: \<open>affects\<close> is made of the edges that leave the
  component; \<open>affected_by\<close> is made of the edges that enter it from another component. An
  edge from the component to itself is taken by the first branch and never reaches the
  \<open>elif\<close>.
\<close>

lemma impact_affects:
  "snd (generate_impact_analysis rels x) = map to_affects (filter (\<lambda>rel. efrom rel = x) rels)"
  by (induction rels) (auto simp: to_affects_def split: prod.splits)

lemma impact_affected_by:
  "fst (generate_impact_analysis rels x)
     = map to_affected_by (filter (\<lambda>rel. eto rel = x \<and> efrom rel \<noteq> x) rels)"
  by (induction rels) (auto simp: to_affected_by_def split: prod.splits)

text \<open>
  C4 at a class that calls its own static method. The class pass emits two edges from
  \<open>class_Ab\<close> to \<open>class_Ab\<close>; the impact analysis for \<open>class_Ab\<close> lists both under
  \<open>affects\<close> and none under \<open>affected_by\<close>, although both have \<open>to\<close> equal to \<open>class_Ab\<close>.
\<close>

theorem impact_self_reference:
  "relationships (snd (process_apex_class self_call_class init_converter))
     = [mk_edge ''class_Ab'' ''class_Ab'' ''DEPENDS_ON_CLASS'' ''Calls methods or instantiates class'',
        mk_edge ''class_Ab'' ''class_Ab'' ''CALLS_METHOD'' ''Calls method c'']
   \<and> generate_impact_analysis
        (relationships (snd (process_apex_class self_call_class init_converter))) ''class_Ab''
     = ([], [\<lparr>component = ''class_Ab'', rel_type = ''DEPENDS_ON_CLASS'',
               rel_details = ''Calls methods or instantiates class''\<rparr>,
             \<lparr>component = ''class_Ab'', rel_type = ''CALLS_METHOD'',
               rel_details = ''Calls method c''\<rparr>])"
  by code_simp

section \<open>Properties of the object-level passes\<close>












text \<open>
  A field without a name ends the pass with an \<open>AttributeError\<close>, and with it the edge of the
  \<open>AccountId\<close> field read before it.
\<close>

lemma nameless_field_raises:
  "analyze_cross_object_relationships nameless_field = Inl AttributeError"
  by (simp add: analyze_cross_object_relationships_def nameless_field_def cross_field_edges_def)

section \<open>Properties of the converter\<close>















lemma trigger_relationships_no_error:
  "snd (create_trigger_relationships tid (extract_comprehensive_dependencies src n k) owner) = None"
proof -
  let ?deps = "extract_comprehensive_dependencies src n k"
  obtain cs os fs where k: "map_of ?deps ''classes'' = Some cs" "map_of ?deps ''objects'' = Some os"
    "map_of ?deps ''fields'' = Some fs"
    by (simp add: map_of_extract collect_classes collect_objects collect_fields)
  show ?thesis
    by (simp add: create_trigger_relationships_def trigger_loops_def k)
qed

lemma trigger_relationships_no_has_trigger:
  "filter (\<lambda>e. etype e = ''HAS_TRIGGER'') (fst (create_trigger_relationships tid deps owner)) = []"
  unfolding create_trigger_relationships_def
  by (rule filter_run_loops_empty)
     (auto simp: trigger_loops_def etype_mk_edge split: if_splits prod.splits)

text \<open>
  C10. When the source and the descriptor of a trigger can be read and the text has no match
  for the header pattern, \<open>process_trigger\<close> returns the record, without the \<open>object\<close> key
  and with no events, adds one to \<open>triggers_processed\<close>, records no error and adds no
  \<open>HAS_TRIGGER\<close> edge.
\<close>

theorem trigger_without_header:
  assumes "read_source trigger_file = Inr (body, md)" and "extract_trigger_object body = None"
  shows "\<exists>t cv'. process_trigger trigger_file cv = (Some t, cv')
           \<and> trigger_object t = None \<and> trigger_events t = []
           \<and> triggers_processed (stats cv') = triggers_processed (stats cv) + 1
           \<and> errors (stats cv') = errors (stats cv)
           \<and> filter (\<lambda>e. etype e = ''HAS_TRIGGER'') (relationships cv')
               = filter (\<lambda>e. etype e = ''HAS_TRIGGER'') (relationships cv)"
proof -
  let ?tid = "''trigger_'' @ src_stem trigger_file"
  let ?deps = "extract_comprehensive_dependencies body (src_stem trigger_file) ''ApexTrigger''"
  obtain es err where r: "create_trigger_relationships ?tid ?deps None = (es, err)"
    by (cases "create_trigger_relationships ?tid ?deps None")
  have err: "err = None"
    using trigger_relationships_no_error [of "?tid" body "src_stem trigger_file" "''ApexTrigger''" None] r
    by simp
  have es: "filter (\<lambda>e. etype e = ''HAS_TRIGGER'') es = []"
    using trigger_relationships_no_has_trigger [of "?tid" "?deps" None] r by simp
  have "process_trigger trigger_file cv
      = (Some \<lparr>eid = ?tid, kind = ''ApexTrigger'', name = src_stem trigger_file, metadata = md,
                source_code = body, comprehensive_dependencies = ?deps,
                trigger_events = [], trigger_object = None\<rparr>,
         (append_edges es cv)\<lparr>stats := (stats (append_edges es cv))
            \<lparr>triggers_processed := triggers_processed (stats (append_edges es cv)) + 1\<rparr>\<rparr>)"
    using r err by (simp add: process_trigger_def assms Let_def)
  then show ?thesis
    using es by (simp add: append_edges_def)
qed

text \<open>The theorem at a trigger file whose text breaks off before the parenthesis.\<close>

theorem trigger_without_header_witness:
  "read_source headerless_trigger = Inr (''trigger T on Account'', JDict [])
   \<and> extract_trigger_object ''trigger T on Account'' = None
   \<and> map_option trigger_object (fst (process_trigger headerless_trigger init_converter)) = Some None
   \<and> map_option trigger_events (fst (process_trigger headerless_trigger init_converter)) = Some []
   \<and> triggers_processed (stats (snd (process_trigger headerless_trigger init_converter))) = 1
   \<and> errors (stats (snd (process_trigger headerless_trigger init_converter))) = []"
proof -
  have h1: "read_source headerless_trigger = Inr (''trigger T on Account'', JDict [])"
    by (simp add: read_source_def headerless_trigger_def)
  have h2: "extract_trigger_object ''trigger T on Account'' = None"
    by code_simp
  obtain t cv' where "process_trigger headerless_trigger init_converter = (Some t, cv')"
    "trigger_object t = None" "trigger_events t = []"
    "triggers_processed (stats cv') = triggers_processed (stats init_converter) + 1"
    "errors (stats cv') = errors (stats init_converter)"
    using trigger_without_header [OF h1 h2, of init_converter] by blast
  then show ?thesis
    using h1 h2 by (simp add: init_converter_def)
qed

section \<open>Duplicate edges\<close>

lemma triple_mk_edge: "triple (mk_edge f t ty d) = (f, t, ty)"
  by (simp add: triple_def mk_edge_def)

lemma filter_typed_keep:
  "ty \<in> S \<Longrightarrow> filter (\<lambda>e. etype e \<in> S) (map (\<lambda>x. mk_edge c (pre @ x) ty d) xs)
     = map (\<lambda>x. mk_edge c (pre @ x) ty d) xs"
  by (induction xs) (simp_all add: etype_mk_edge)

lemma filter_typed_drop:
  "(\<And>e. e \<in> set es \<Longrightarrow> etype e \<notin> S) \<Longrightarrow> filter (\<lambda>e. etype e \<in> S) es = []"
  by (simp add: filter_empty_conv)

lemma distinct_segment:
  "distinct xs \<Longrightarrow> distinct (map triple (map (\<lambda>x. mk_edge c (pre @ x) ty d) xs))"
  by (simp add: distinct_map triple_mk_edge inj_on_def)

lemma segment_types:
  "p \<in> set (map triple (map (\<lambda>x. mk_edge c (pre @ x) ty d) xs)) \<Longrightarrow> snd (snd p) = ty"
  by (auto simp: triple_mk_edge)

lemma extract_distinct:
  "map_of (extract_comprehensive_dependencies src n k) key = Some xs \<Longrightarrow> distinct xs"
  by (auto simp: map_of_extract distinct_clean)

lemma extract_all_keys:
  "\<exists>os cs fs ms ss ws ts ls rs.
     map_of (extract_comprehensive_dependencies src n k) ''objects'' = Some os
   \<and> map_of (extract_comprehensive_dependencies src n k) ''classes'' = Some cs
   \<and> map_of (extract_comprehensive_dependencies src n k) ''fields'' = Some fs
   \<and> map_of (extract_comprehensive_dependencies src n k) ''methods'' = Some ms
   \<and> map_of (extract_comprehensive_dependencies src n k) ''custom_settings'' = Some ss
   \<and> map_of (extract_comprehensive_dependencies src n k) ''web_services'' = Some ws
   \<and> map_of (extract_comprehensive_dependencies src n k) ''email_templates'' = Some ts
   \<and> map_of (extract_comprehensive_dependencies src n k) ''custom_labels'' = Some ls
   \<and> map_of (extract_comprehensive_dependencies src n k) ''static_resources'' = Some rs"
  by (simp add: map_of_extract collect_dependencies_def)

lemma segments_disjoint:
  "ty \<noteq> ty' \<Longrightarrow>
   set (map triple (map (\<lambda>x. mk_edge c (pre @ x) ty d) xs))
     \<inter> set (map triple (map (\<lambda>x. mk_edge c' (pre' @ x) ty' d') ys)) = {}"
  by (auto simp: triple_mk_edge)

lemma class_unique_types_distinct:
  "distinct (map triple (filter (\<lambda>e. etype e \<in> set unique_edge_types)
     (fst (create_class_relationships class_id (extract_comprehensive_dependencies src n k)))))"
proof -
  let ?deps = "extract_comprehensive_dependencies src n k"
  let ?P = "\<lambda>e. etype e \<in> set unique_edge_types"
  obtain os cs fs ms ss ws ts ls rs where key:
    "map_of ?deps ''objects'' = Some os" "map_of ?deps ''classes'' = Some cs"
    "map_of ?deps ''fields'' = Some fs" "map_of ?deps ''methods'' = Some ms"
    "map_of ?deps ''custom_settings'' = Some ss" "map_of ?deps ''web_services'' = Some ws"
    "map_of ?deps ''email_templates'' = Some ts" "map_of ?deps ''custom_labels'' = Some ls"
    "map_of ?deps ''static_resources'' = Some rs"
    using extract_all_keys [of src n k] by blast
  have d: "distinct os" "distinct cs" "distinct ss" "distinct ts" "distinct ls" "distinct rs"
    using key extract_distinct by blast+
  let ?s1 = "map (\<lambda>x. mk_edge class_id (''object_'' @ x) ''USES_OBJECT''
               ''References object in SOQL/DML operations'') os"
  let ?s2 = "map (\<lambda>x. mk_edge class_id (''class_'' @ x) ''DEPENDS_ON_CLASS''
               ''Calls methods or instantiates class'') cs"
  let ?s3 = "concat (map (\<lambda>field.
          if has_dot field
          then (case split1 CHR ''.'' field of (obj_name, field_name) \<Rightarrow>
                  [mk_edge class_id (''field_'' @ obj_name @ ''_'' @ field_name) ''ACCESSES_FIELD''
                     (''Accesses field '' @ field_name @ '' on '' @ obj_name)])
          else []) fs)"
  let ?s4 = "concat (map (\<lambda>method.
          if has_dot method
          then (case split1 CHR ''.'' method of (cls_name, method_name) \<Rightarrow>
                  [mk_edge class_id (''class_'' @ cls_name) ''CALLS_METHOD''
                     (''Calls method '' @ method_name)])
          else []) ms)"
  let ?s5 = "map (\<lambda>x. mk_edge class_id (''object_'' @ x) ''USES_CUSTOM_SETTING''
               ''Accesses custom setting or metadata'') ss"
  let ?s6 = "concat (map (\<lambda>service.
          if starts_with ''http'' service
          then [mk_edge class_id
                  (''webservice_'' @ replace_str '':'' ''_'' (replace_str ''/'' ''_'' service))
                  ''CALLS_WEBSERVICE'' (''Makes HTTP callout to '' @ service)]
          else []) ws)"
  let ?s7 = "map (\<lambda>x. mk_edge class_id (''emailtemplate_'' @ x) ''USES_EMAIL_TEMPLATE''
               ''Uses email template for messaging'') ts"
  let ?s8 = "map (\<lambda>x. mk_edge class_id (''customlabel_'' @ x) ''USES_CUSTOM_LABEL''
               ''References custom label'') ls"
  let ?s9 = "map (\<lambda>x. mk_edge class_id (''staticresource_'' @ x) ''USES_STATIC_RESOURCE''
               ''References static resource'') rs"
  have all: "fst (create_class_relationships class_id ?deps)
      = ?s1 @ ?s2 @ ?s3 @ ?s4 @ ?s5 @ ?s6 @ ?s7 @ ?s8 @ ?s9"
    unfolding create_class_relationships_def class_loops_def
    by (simp only: run_loops_Some [OF key(1)] run_loops_Some [OF key(2)] run_loops_Some [OF key(3)]
        run_loops_Some [OF key(4)] run_loops_Some [OF key(5)] run_loops_Some [OF key(6)]
        run_loops_Some [OF key(7)] run_loops_Some [OF key(8)] run_loops_Some [OF key(9)]
        run_loops.simps(1) fst_conv append_Nil2)
  have k1: "filter ?P ?s1 = ?s1" by (rule filter_typed_keep) (simp add: unique_edge_types_def)
  have k2: "filter ?P ?s2 = ?s2" by (rule filter_typed_keep) (simp add: unique_edge_types_def)
  have k5: "filter ?P ?s5 = ?s5" by (rule filter_typed_keep) (simp add: unique_edge_types_def)
  have k7: "filter ?P ?s7 = ?s7" by (rule filter_typed_keep) (simp add: unique_edge_types_def)
  have k8: "filter ?P ?s8 = ?s8" by (rule filter_typed_keep) (simp add: unique_edge_types_def)
  have k9: "filter ?P ?s9 = ?s9" by (rule filter_typed_keep) (simp add: unique_edge_types_def)
  have k3: "filter ?P ?s3 = []"
    by (rule filter_typed_drop)
       (auto simp: etype_mk_edge unique_edge_types_def split: if_splits prod.splits)
  have k4: "filter ?P ?s4 = []"
    by (rule filter_typed_drop)
       (auto simp: etype_mk_edge unique_edge_types_def split: if_splits prod.splits)
  have k6: "filter ?P ?s6 = []"
    by (rule filter_typed_drop)
       (auto simp: etype_mk_edge unique_edge_types_def split: if_splits)
  have f: "filter ?P (fst (create_class_relationships class_id ?deps))
      = ?s1 @ ?s2 @ ?s5 @ ?s7 @ ?s8 @ ?s9"
    unfolding all filter_append k1 k2 k3 k4 k5 k6 k7 k8 k9 by simp
  have d1: "distinct (map triple ?s1)" using d(1) by (rule distinct_segment)
  have d2: "distinct (map triple ?s2)" using d(2) by (rule distinct_segment)
  have d5: "distinct (map triple ?s5)" using d(3) by (rule distinct_segment)
  have d7: "distinct (map triple ?s7)" using d(4) by (rule distinct_segment)
  have d8: "distinct (map triple ?s8)" using d(5) by (rule distinct_segment)
  have d9: "distinct (map triple ?s9)" using d(6) by (rule distinct_segment)
  have x12: "set (map triple ?s1) \<inter> set (map triple ?s2) = {}" by (rule segments_disjoint) simp
  have x15: "set (map triple ?s1) \<inter> set (map triple ?s5) = {}" by (rule segments_disjoint) simp
  have x17: "set (map triple ?s1) \<inter> set (map triple ?s7) = {}" by (rule segments_disjoint) simp
  have x18: "set (map triple ?s1) \<inter> set (map triple ?s8) = {}" by (rule segments_disjoint) simp
  have x19: "set (map triple ?s1) \<inter> set (map triple ?s9) = {}" by (rule segments_disjoint) simp
  have x25: "set (map triple ?s2) \<inter> set (map triple ?s5) = {}" by (rule segments_disjoint) simp
  have x27: "set (map triple ?s2) \<inter> set (map triple ?s7) = {}" by (rule segments_disjoint) simp
  have x28: "set (map triple ?s2) \<inter> set (map triple ?s8) = {}" by (rule segments_disjoint) simp
  have x29: "set (map triple ?s2) \<inter> set (map triple ?s9) = {}" by (rule segments_disjoint) simp
  have x57: "set (map triple ?s5) \<inter> set (map triple ?s7) = {}" by (rule segments_disjoint) simp
  have x58: "set (map triple ?s5) \<inter> set (map triple ?s8) = {}" by (rule segments_disjoint) simp
  have x59: "set (map triple ?s5) \<inter> set (map triple ?s9) = {}" by (rule segments_disjoint) simp
  have x78: "set (map triple ?s7) \<inter> set (map triple ?s8) = {}" by (rule segments_disjoint) simp
  have x79: "set (map triple ?s7) \<inter> set (map triple ?s9) = {}" by (rule segments_disjoint) simp
  have x89: "set (map triple ?s8) \<inter> set (map triple ?s9) = {}" by (rule segments_disjoint) simp
  have "distinct (map triple ?s1 @ map triple ?s2 @ map triple ?s5 @ map triple ?s7
          @ map triple ?s8 @ map triple ?s9)"
    unfolding distinct_append set_append Int_Un_distrib
    using d1 d2 d5 d7 d8 d9 x12 x15 x17 x18 x19 x25 x27 x28 x29 x57 x58 x59 x78 x79 x89
    by blast
  then show ?thesis
    unfolding f map_append .
qed

subsection \<open>The edges of a run, pass by pass\<close>

lemma relationships_record_error [simp]:
  "relationships (record_error msg cv) = relationships cv"
  by (simp add: record_error_def)

lemma relationships_append_edges [simp]:
  "relationships (append_edges es cv) = relationships cv @ es"
  by (simp add: append_edges_def)

lemma process_field_edges:
  "relationships (snd (process_field f nm cv)) = relationships cv"
  "map_option eid (fst (process_field f nm cv))
     = (if parsed_ok f then Some (''field_'' @ nm @ ''_'' @ field_name_of f) else None)"
  by (cases "parsed f"; simp add: process_field_def parsed_ok_def field_name_of_def Let_def)+

lemma process_listview_edges:
  "relationships (snd (process_listview f nm cv)) = relationships cv"
  "map_option eid (fst (process_listview f nm cv))
     = (if parsed_ok f then Some (''listview_'' @ nm @ ''_'' @ listview_name_of f) else None)"
  by (cases "parsed f"; simp add: process_listview_def parsed_ok_def listview_name_of_def Let_def)+

lemma process_weblink_edges:
  "relationships (snd (process_weblink f nm cv)) = relationships cv"
  "map_option eid (fst (process_weblink f nm cv))
     = (if parsed_ok f then Some (''weblink_'' @ nm @ ''_'' @ weblink_name_of f) else None)"
  by (cases "parsed f"; simp add: process_weblink_def parsed_ok_def weblink_name_of_def Let_def)+

lemma process_sub_files_edges:
  assumes "\<And>f cv. relationships (snd (process f nm cv)) = relationships cv"
    and "\<And>f cv. map_option eid (fst (process f nm cv))
           = (if parsed_ok f then Some (prefix @ nm @ ''_'' @ name_of f) else None)"
  shows "relationships (snd (process_sub_files process ty fs nm (''object_'' @ nm) cv))
           = relationships cv @ sub_file_edges prefix name_of ty nm fs"
proof (induction fs arbitrary: cv)
  case Nil
  show ?case by (simp add: sub_file_edges_def)
next
  case (Cons f fs)
  obtain r cv1 where r: "process f nm cv = (r, cv1)" by (cases "process f nm cv")
  have rel: "relationships cv1 = relationships cv"
    using assms(1) [of f cv] r by simp
  have ident: "map_option eid r = (if parsed_ok f then Some (prefix @ nm @ ''_'' @ name_of f) else None)"
    using assms(2) [of f cv] r by simp
  show ?case
  proof (cases r)
    case None
    then have "\<not> parsed_ok f" using ident by (simp split: if_splits)
    then show ?thesis
      using Cons.IH [of cv1] by (simp add: r None rel sub_file_edges_def)
  next
    case (Some data)
    then have ok: "parsed_ok f" and i: "eid data = prefix @ nm @ ''_'' @ name_of f"
      using ident by (simp_all split: if_splits)
    obtain ds cv2 where rec: "process_sub_files process ty fs nm (''object_'' @ nm)
        (append_edges [structural_edge (''object_'' @ nm) (eid data) ty] cv1) = (ds, cv2)"
      by (cases "process_sub_files process ty fs nm (''object_'' @ nm)
        (append_edges [structural_edge (''object_'' @ nm) (eid data) ty] cv1)")
    have "relationships cv2
        = relationships (append_edges [structural_edge (''object_'' @ nm) (eid data) ty] cv1)
          @ sub_file_edges prefix name_of ty nm fs"
      using Cons.IH [of "append_edges [structural_edge (''object_'' @ nm) (eid data) ty] cv1"] rec
      by simp
    then show ?thesis
      using ok rec by (simp add: r Some rel i sub_file_edges_def)
  qed
qed

lemma process_custom_object_edges:
  "relationships (snd (process_custom_object d cv)) = relationships cv @ object_pass_edges d"
proof -
  let ?nm = "dir_name d"
  obtain md cv0 where c0: "(case object_file d of
              None \<Rightarrow> (JDict [], cv)
            | Some (p, Inl e) \<Rightarrow> (JDict [], record_error (''Error processing '' @ p @ '': '' @ e) cv)
            | Some (p, Inr root) \<Rightarrow>
                (xml_to_dict root,
                 cv\<lparr>stats := (stats cv)\<lparr>objects_processed := objects_processed (stats cv) + 1\<rparr>\<rparr>))
            = (md, cv0)"
    by (cases "(case object_file d of
              None \<Rightarrow> (JDict [], cv)
            | Some (p, Inl e) \<Rightarrow> (JDict [], record_error (''Error processing '' @ p @ '': '' @ e) cv)
            | Some (p, Inr root) \<Rightarrow>
                (xml_to_dict root,
                 cv\<lparr>stats := (stats cv)\<lparr>objects_processed := objects_processed (stats cv) + 1\<rparr>\<rparr>))")
  have r0: "relationships cv0 = relationships cv"
    using c0 by (auto split: option.splits sum.splits prod.splits)
  obtain fs cv1 where c1: "process_sub_files process_field ''HAS_FIELD'' (field_files d) ?nm
      (''object_'' @ ?nm) cv0 = (fs, cv1)"
    by (cases "process_sub_files process_field ''HAS_FIELD'' (field_files d) ?nm
      (''object_'' @ ?nm) cv0")
  obtain ls cv2 where c2: "process_sub_files process_listview ''HAS_LISTVIEW'' (listview_files d) ?nm
      (''object_'' @ ?nm) cv1 = (ls, cv2)"
    by (cases "process_sub_files process_listview ''HAS_LISTVIEW'' (listview_files d) ?nm
      (''object_'' @ ?nm) cv1")
  obtain ws cv3 where c3: "process_sub_files process_weblink ''HAS_WEBLINK'' (weblink_files d) ?nm
      (''object_'' @ ?nm) cv2 = (ws, cv3)"
    by (cases "process_sub_files process_weblink ''HAS_WEBLINK'' (weblink_files d) ?nm
      (''object_'' @ ?nm) cv2")
  have r1: "relationships cv1 = relationships cv0
      @ sub_file_edges ''field_'' field_name_of ''HAS_FIELD'' ?nm (field_files d)"
    using process_sub_files_edges [of process_field ?nm "''field_''" field_name_of
        "''HAS_FIELD''" "field_files d" cv0] process_field_edges c1
    by simp
  have r2: "relationships cv2 = relationships cv1
      @ sub_file_edges ''listview_'' listview_name_of ''HAS_LISTVIEW'' ?nm (listview_files d)"
    using process_sub_files_edges [of process_listview ?nm "''listview_''" listview_name_of
        "''HAS_LISTVIEW''" "listview_files d" cv1] process_listview_edges c2
    by simp
  have r3: "relationships cv3 = relationships cv2
      @ sub_file_edges ''weblink_'' weblink_name_of ''HAS_WEBLINK'' ?nm (weblink_files d)"
    using process_sub_files_edges [of process_weblink ?nm "''weblink_''" weblink_name_of
        "''HAS_WEBLINK''" "weblink_files d" cv2] process_weblink_edges c3
    by simp
  have "snd (process_custom_object d cv) = cv3"
    using c0 c1 c2 c3 by (simp add: process_custom_object_def Let_def)
  then show ?thesis
    by (simp add: r0 r1 r2 r3 object_pass_edges_def)
qed

lemma process_layout_edges:
  "relationships (snd (process_layout f cv)) = relationships cv @ layout_pass_edges f"
  by (cases "parsed f")
     (simp_all add: process_layout_def layout_pass_edges_def layout_name_of_def Let_def)

lemma process_workflow_edges:
  "relationships (snd (process_workflow f cv)) = relationships cv @ workflow_pass_edges f"
  by (cases "parsed f")
     (simp_all add: process_workflow_def workflow_pass_edges_def workflow_name_of_def Let_def)

lemma process_apex_class_edges:
  "relationships (snd (process_apex_class f cv)) = relationships cv @ class_pass_edges f"
proof (cases "read_source f")
  case (Inl e)
  then show ?thesis by (simp add: process_apex_class_def class_pass_edges_def)
next
  case (Inr p)
  obtain code_text md where p: "p = (code_text, md)" by (cases p)
  obtain es err where r: "create_class_relationships (''class_'' @ src_stem f)
      (extract_comprehensive_dependencies code_text (src_stem f) ''ApexClass'') = (es, err)"
    by (cases "create_class_relationships (''class_'' @ src_stem f)
      (extract_comprehensive_dependencies code_text (src_stem f) ''ApexClass'')")
  show ?thesis
    using r by (cases err) (simp_all add: process_apex_class_def class_pass_edges_def Inr p Let_def)
qed

lemma process_trigger_edges:
  "relationships (snd (process_trigger f cv)) = relationships cv @ trigger_pass_edges f"
proof (cases "read_source f")
  case (Inl e)
  then show ?thesis by (simp add: process_trigger_def trigger_pass_edges_def)
next
  case (Inr p)
  obtain code_text md where p: "p = (code_text, md)" by (cases p)
  obtain es err where r: "create_trigger_relationships (''trigger_'' @ src_stem f)
      (extract_comprehensive_dependencies code_text (src_stem f) ''ApexTrigger'')
      (extract_trigger_object code_text) = (es, err)"
    by (cases "create_trigger_relationships (''trigger_'' @ src_stem f)
      (extract_comprehensive_dependencies code_text (src_stem f) ''ApexTrigger'')
      (extract_trigger_object code_text)")
  show ?thesis
    using r
    by (cases err; cases "extract_trigger_object code_text")
       (simp_all add: process_trigger_def trigger_pass_edges_def Inr p Let_def)
qed

lemma process_files_edges:
  assumes "\<And>f cv. relationships (snd (process f cv)) = relationships cv @ edges_of f"
  shows "relationships (snd (process_files process fs cv))
           = relationships cv @ concat (map edges_of fs)"
proof (induction fs arbitrary: cv)
  case Nil
  show ?case by simp
next
  case (Cons f fs)
  obtain r cv1 where r: "process f cv = (r, cv1)" by (cases "process f cv")
  have rel: "relationships cv1 = relationships cv @ edges_of f"
    using assms [of f cv] r by simp
  obtain ds cv2 where rec: "process_files process fs cv1 = (ds, cv2)"
    by (cases "process_files process fs cv1")
  have "relationships cv2 = relationships cv1 @ concat (map edges_of fs)"
    using Cons.IH [of cv1] rec by simp
  then show ?case
    by (cases r) (simp_all add: r rec rel)
qed

lemma convert_all_metadata_edges:
  "all_relationships (fst (convert_all_metadata tree cv))
     = relationships cv
       @ concat (map object_pass_edges (object_dirs tree))
       @ concat (map layout_pass_edges (layout_files tree))
       @ concat (map class_pass_edges (class_files tree))
       @ concat (map trigger_pass_edges (trigger_files tree))
       @ concat (map workflow_pass_edges (workflow_files tree))"
proof -
  let ?po = "\<lambda>d c. case process_custom_object d c of (e, c') \<Rightarrow> (Some e, c')"
  obtain os cv1 where c1: "process_files ?po (object_dirs tree) cv = (os, cv1)"
    by (cases "process_files ?po (object_dirs tree) cv")
  obtain ls cv2 where c2: "process_files process_layout (layout_files tree) cv1 = (ls, cv2)"
    by (cases "process_files process_layout (layout_files tree) cv1")
  obtain cs cv3 where c3: "process_files process_apex_class (class_files tree) cv2 = (cs, cv3)"
    by (cases "process_files process_apex_class (class_files tree) cv2")
  obtain ts cv4 where c4: "process_files process_trigger (trigger_files tree) cv3 = (ts, cv4)"
    by (cases "process_files process_trigger (trigger_files tree) cv3")
  obtain ws cv5 where c5: "process_files process_workflow (workflow_files tree) cv4 = (ws, cv5)"
    by (cases "process_files process_workflow (workflow_files tree) cv4")
  have po: "\<And>d c. relationships (snd (?po d c)) = relationships c @ object_pass_edges d"
    using process_custom_object_edges by (simp add: case_prod_beta)
  have r1: "relationships cv1 = relationships cv @ concat (map object_pass_edges (object_dirs tree))"
    using process_files_edges [of ?po object_pass_edges "object_dirs tree" cv, OF po] c1 by simp
  have r2: "relationships cv2 = relationships cv1 @ concat (map layout_pass_edges (layout_files tree))"
    using process_files_edges [of process_layout layout_pass_edges "layout_files tree" cv1,
        OF process_layout_edges] c2 by simp
  have r3: "relationships cv3 = relationships cv2 @ concat (map class_pass_edges (class_files tree))"
    using process_files_edges [of process_apex_class class_pass_edges "class_files tree" cv2,
        OF process_apex_class_edges] c3 by simp
  have r4: "relationships cv4 = relationships cv3 @ concat (map trigger_pass_edges (trigger_files tree))"
    using process_files_edges [of process_trigger trigger_pass_edges "trigger_files tree" cv3,
        OF process_trigger_edges] c4 by simp
  have r5: "relationships cv5 = relationships cv4 @ concat (map workflow_pass_edges (workflow_files tree))"
    using process_files_edges [of process_workflow workflow_pass_edges "workflow_files tree" cv4,
        OF process_workflow_edges] c5 by simp
  have "all_relationships (fst (convert_all_metadata tree cv)) = relationships cv5"
    using c1 c2 c3 c4 c5 by (simp add: convert_all_metadata_def)
  then show ?thesis
    by (simp add: r1 r2 r3 r4 r5)
qed

subsection \<open>Lists of edges without a repeated triple\<close>

lemma filter_concat_map:
  "filter P (concat (map g xs)) = concat (map (\<lambda>x. filter P (g x)) xs)"
  by (induction xs) simp_all

lemma distinct_concat_keyed:
  assumes "distinct (map k xs)"
    and "\<And>x. x \<in> set xs \<Longrightarrow> distinct (map triple (g x))"
    and "\<And>x e. x \<in> set xs \<Longrightarrow> e \<in> set (g x) \<Longrightarrow> key (triple e) = k x"
  shows "distinct (map triple (concat (map g xs)))"
  using assms
proof (induction xs)
  case Nil
  show ?case by simp
next
  case (Cons x xs)
  have tl: "distinct (map triple (concat (map g xs)))"
    using Cons by simp
  have hd: "distinct (map triple (g x))"
    using Cons.prems(2) by simp
  have "set (map triple (g x)) \<inter> set (map triple (concat (map g xs))) = {}"
  proof (rule ccontr)
    assume "set (map triple (g x)) \<inter> set (map triple (concat (map g xs))) \<noteq> {}"
    then obtain t where t: "t \<in> set (map triple (g x))" "t \<in> set (map triple (concat (map g xs)))"
      by blast
    from t(1) obtain e where e: "e \<in> set (g x)" and te: "triple e = t" by auto
    from t(2) obtain e' where "e' \<in> set (concat (map g xs))" and te': "triple e' = t" by auto
    then obtain y where y: "y \<in> set xs" "e' \<in> set (g y)" by auto
    have eq: "triple e = triple e'" using te te' by simp
    have "key (triple e) = k x" using Cons.prems(3) e by simp
    moreover have "key (triple e') = k y" using Cons.prems(3) y by simp
    ultimately have "k x = k y" using eq by simp
    then have "k x \<in> set (map k xs)" using y(1) by simp
    then show False using Cons.prems(1) by simp
  qed
  then show ?case
    using hd tl by simp
qed

lemma distinct_map_prefix:
  "distinct (map f xs) \<Longrightarrow> distinct (map (\<lambda>x. p @ f x) xs)"
  by (induction xs) auto

lemma distinct_by_target:
  "distinct (map eto es) \<Longrightarrow> distinct (map triple es)"
proof -
  assume d: "distinct (map eto es)"
  have "map eto es = map (\<lambda>t. fst (snd t)) (map triple es)"
    by (simp add: triple_def)
  then show ?thesis
    using d distinct_map by metis
qed

lemma typed_disjoint:
  assumes "\<And>e. e \<in> set xs \<Longrightarrow> etype e \<in> S" and "\<And>e. e \<in> set ys \<Longrightarrow> etype e \<in> T"
    and "S \<inter> T = {}"
  shows "set (map triple xs) \<inter> set (map triple ys) = {}"
proof (rule ccontr)
  assume "set (map triple xs) \<inter> set (map triple ys) \<noteq> {}"
  then obtain t where t: "t \<in> set (map triple xs)" "t \<in> set (map triple ys)"
    by blast
  from t(1) obtain e where e: "e \<in> set xs" "triple e = t" by auto
  from t(2) obtain e' where e': "e' \<in> set ys" "triple e' = t" by auto
  have a: "etype e \<in> S" using assms(1) e(1) by blast
  have b: "etype e' \<in> T" using assms(2) e'(1) by blast
  have "triple e = triple e'" using e(2) e'(2) by simp
  then have "etype e = etype e'" by (simp add: triple_def)
  then show False using a b assms(3) by auto
qed

lemma run_loops_all:
  assumes "\<And>key body xs e. (key, body) \<in> set ls \<Longrightarrow> e \<in> set (body xs) \<Longrightarrow> Q e"
    and "e \<in> set (fst (run_loops ls deps))"
  shows "Q e"
proof -
  have "filter (\<lambda>e. \<not> Q e) (fst (run_loops ls deps)) = []"
    by (rule filter_run_loops_empty) (use assms(1) in blast)
  then show ?thesis
    using assms(2) by (simp add: filter_empty_conv)
qed

lemma etype_structural_edge: "etype (structural_edge f t ty) = ty"
  by (simp add: structural_edge_def)

lemma triple_structural_edge: "triple (structural_edge f t ty) = (f, t, ty)"
  by (simp add: triple_def structural_edge_def)

subsection \<open>The class pass\<close>

lemma class_pass_from:
  "e \<in> set (class_pass_edges f) \<Longrightarrow> efrom e = ''class_'' @ src_stem f"
proof (cases "read_source f")
  case (Inl a)
  assume "e \<in> set (class_pass_edges f)"
  then show ?thesis using Inl by (simp add: class_pass_edges_def)
next
  case (Inr p)
  assume e: "e \<in> set (class_pass_edges f)"
  obtain code_text md where p: "p = (code_text, md)" by (cases p)
  have "e \<in> set (fst (run_loops (class_loops (''class_'' @ src_stem f))
      (extract_comprehensive_dependencies code_text (src_stem f) ''ApexClass'')))"
    using e by (simp add: class_pass_edges_def Inr p create_class_relationships_def)
  then show ?thesis
    by (rule run_loops_all [rotated])
       (auto simp: class_loops_def mk_edge_def split: if_splits prod.splits)
qed

lemma class_pass_types:
  "e \<in> set (class_pass_edges f) \<Longrightarrow> etype e \<in> set class_edge_types"
proof (cases "read_source f")
  case (Inl a)
  assume "e \<in> set (class_pass_edges f)"
  then show ?thesis using Inl by (simp add: class_pass_edges_def)
next
  case (Inr p)
  assume e: "e \<in> set (class_pass_edges f)"
  obtain code_text md where p: "p = (code_text, md)" by (cases p)
  have "e \<in> set (fst (run_loops (class_loops (''class_'' @ src_stem f))
      (extract_comprehensive_dependencies code_text (src_stem f) ''ApexClass'')))"
    using e by (simp add: class_pass_edges_def Inr p create_class_relationships_def)
  then show ?thesis
    by (rule run_loops_all [rotated])
       (auto simp: class_loops_def mk_edge_def class_edge_types_def split: if_splits prod.splits)
qed

lemma class_kept_types:
  "ty \<in> set class_edge_types \<Longrightarrow>
   (ty \<notin> set repeatable_edge_types) = (ty \<in> set unique_edge_types)"
  by (auto simp: class_edge_types_def repeatable_edge_types_def unique_edge_types_def)

lemma class_pass_distinct:
  "distinct (map triple (filter (\<lambda>e. etype e \<notin> set repeatable_edge_types) (class_pass_edges f)))"
proof -
  have "filter (\<lambda>e. etype e \<notin> set repeatable_edge_types) (class_pass_edges f)
      = filter (\<lambda>e. etype e \<in> set unique_edge_types) (class_pass_edges f)"
    by (rule filter_cong) (simp_all add: class_pass_types class_kept_types)
  moreover have "distinct (map triple (filter (\<lambda>e. etype e \<in> set unique_edge_types)
      (class_pass_edges f)))"
  proof (cases "read_source f")
    case (Inl a)
    then show ?thesis by (simp add: class_pass_edges_def)
  next
    case (Inr p)
    obtain code_text md where p: "p = (code_text, md)" by (cases p)
    show ?thesis
      using class_unique_types_distinct [of "''class_'' @ src_stem f" code_text "src_stem f"
          "''ApexClass''"]
      by (simp add: class_pass_edges_def Inr p)
  qed
  ultimately show ?thesis by simp
qed

subsection \<open>The trigger pass\<close>

lemma trigger_loop_edges:
  assumes "map_of deps ''classes'' = Some cs" and "map_of deps ''objects'' = Some os"
    and "map_of deps ''fields'' = Some fs"
  shows "fst (create_trigger_relationships tid deps owner)
    = map (\<lambda>cls.
          if contains ''Handler'' cls \<or> contains ''Helper'' cls
          then mk_edge tid (''class_'' @ cls) ''DELEGATES_TO_HANDLER''
                 ''Trigger delegates business logic to handler class''
          else mk_edge tid (''class_'' @ cls) ''CALLS_CLASS''
                 ''Trigger calls methods in this class'') cs
      @ concat (map (\<lambda>obj.
          if Some obj \<noteq> owner
          then [mk_edge tid (''object_'' @ obj) ''AFFECTS_OBJECT''
                  (''Trigger performs operations on '' @ obj)]
          else []) os)
      @ concat (map (\<lambda>field.
          if has_dot field
          then (case split1 CHR ''.'' field of (obj_name, field_name) \<Rightarrow>
                  [mk_edge tid (''field_'' @ obj_name @ ''_'' @ field_name) ''MODIFIES_FIELD''
                     (''Trigger modifies or reads field '' @ field_name)])
          else []) fs)"
  unfolding create_trigger_relationships_def trigger_loops_def
  by (simp only: run_loops_Some [OF assms(1)] run_loops_Some [OF assms(2)]
      run_loops_Some [OF assms(3)] run_loops.simps(1) fst_conv append_Nil2)

lemma trigger_loops_key:
  "e \<in> set (fst (create_trigger_relationships tid deps owner)) \<Longrightarrow>
   efrom e = tid \<and> etype e \<in> set trigger_edge_types \<and> etype e \<noteq> ''HAS_TRIGGER''"
proof -
  assume "e \<in> set (fst (create_trigger_relationships tid deps owner))"
  then have "e \<in> set (fst (run_loops (trigger_loops tid owner) deps))"
    by (simp only: create_trigger_relationships_def)
  then show ?thesis
    by (rule run_loops_all [rotated])
       (auto simp: trigger_loops_def mk_edge_def trigger_edge_types_def
          split: if_splits prod.splits)
qed

lemma trigger_pass_key:
  assumes "e \<in> set (trigger_pass_edges f)"
  shows "(if etype e = ''HAS_TRIGGER'' then eto e else efrom e) = ''trigger_'' @ src_stem f"
    and "etype e \<in> set trigger_edge_types"
proof -
  have "(if etype e = ''HAS_TRIGGER'' then eto e else efrom e) = ''trigger_'' @ src_stem f
      \<and> etype e \<in> set trigger_edge_types"
  proof (cases "read_source f")
    case (Inl a)
    then show ?thesis using assms by (simp add: trigger_pass_edges_def)
  next
    case (Inr p)
    obtain code_text md where p: "p = (code_text, md)" by (cases p)
    let ?loops = "fst (create_trigger_relationships (''trigger_'' @ src_stem f)
                   (extract_comprehensive_dependencies code_text (src_stem f) ''ApexTrigger'')
                   (extract_trigger_object code_text))"
    let ?hd = "case extract_trigger_object code_text of
             None \<Rightarrow> []
           | Some obj \<Rightarrow>
               if obj \<noteq> []
               then [mk_edge (''object_'' @ obj) (''trigger_'' @ src_stem f) ''HAS_TRIGGER''
                       (''Trigger events: '' @ join '', '' (extract_trigger_events code_text))]
               else []"
    have "e \<in> set ?hd \<or> e \<in> set ?loops"
      using assms by (simp add: trigger_pass_edges_def Inr p)
    then show ?thesis
    proof
      assume "e \<in> set ?hd"
      then show ?thesis
        by (auto simp: mk_edge_def trigger_edge_types_def split: option.splits if_splits)
    next
      assume "e \<in> set ?loops"
      then show ?thesis
        using trigger_loops_key by auto
    qed
  qed
  then show "(if etype e = ''HAS_TRIGGER'' then eto e else efrom e) = ''trigger_'' @ src_stem f"
    and "etype e \<in> set trigger_edge_types"
    by simp_all
qed

lemma trigger_loops_distinct:
  "distinct (map triple (filter (\<lambda>e. etype e \<notin> set repeatable_edge_types)
     (fst (create_trigger_relationships tid (extract_comprehensive_dependencies src n k) owner))))"
proof -
  let ?deps = "extract_comprehensive_dependencies src n k"
  let ?P = "\<lambda>e. etype e \<notin> set repeatable_edge_types"
  obtain os cs fs where key:
    "map_of ?deps ''classes'' = Some cs" "map_of ?deps ''objects'' = Some os"
    "map_of ?deps ''fields'' = Some fs"
    using extract_all_keys [of src n k] by blast
  have d: "distinct cs" "distinct os"
    using key extract_distinct by blast+
  let ?s1 = "map (\<lambda>cls.
          if contains ''Handler'' cls \<or> contains ''Helper'' cls
          then mk_edge tid (''class_'' @ cls) ''DELEGATES_TO_HANDLER''
                 ''Trigger delegates business logic to handler class''
          else mk_edge tid (''class_'' @ cls) ''CALLS_CLASS''
                 ''Trigger calls methods in this class'') cs"
  let ?s2 = "concat (map (\<lambda>obj.
          if Some obj \<noteq> owner
          then [mk_edge tid (''object_'' @ obj) ''AFFECTS_OBJECT''
                  (''Trigger performs operations on '' @ obj)]
          else []) os)"
  let ?s3 = "concat (map (\<lambda>field.
          if has_dot field
          then (case split1 CHR ''.'' field of (obj_name, field_name) \<Rightarrow>
                  [mk_edge tid (''field_'' @ obj_name @ ''_'' @ field_name) ''MODIFIES_FIELD''
                     (''Trigger modifies or reads field '' @ field_name)])
          else []) fs)"
  have all: "fst (create_trigger_relationships tid ?deps owner) = ?s1 @ ?s2 @ ?s3"
    by (rule trigger_loop_edges [OF key])
  have k1: "filter ?P ?s1 = ?s1"
    by (induction cs) (simp_all add: etype_mk_edge repeatable_edge_types_def)
  have k2: "filter ?P ?s2 = ?s2"
    by (induction os) (simp_all add: etype_mk_edge repeatable_edge_types_def)
  have k3: "filter ?P ?s3 = []"
    by (simp only: filter_empty_conv)
       (auto simp: etype_mk_edge repeatable_edge_types_def split: if_splits prod.splits)
  have t1: "map eto ?s1 = map (\<lambda>cls. ''class_'' @ cls) cs"
    by (induction cs) (simp_all add: mk_edge_def)
  have "distinct (map (\<lambda>cls. ''class_'' @ cls) cs)"
    using d(1) distinct_map_prefix [of "\<lambda>x. x" cs "''class_''"] by simp
  then have "distinct (map eto ?s1)"
    by (simp only: t1)
  then have d1: "distinct (map triple ?s1)"
    by (rule distinct_by_target)
  have t2: "map eto ?s2 = map (\<lambda>obj. ''object_'' @ obj) (filter (\<lambda>obj. Some obj \<noteq> owner) os)"
    by (induction os) (simp_all add: mk_edge_def)
  have "distinct (map (\<lambda>obj. ''object_'' @ obj) (filter (\<lambda>obj. Some obj \<noteq> owner) os))"
    using d(2) distinct_map_prefix [of "\<lambda>x. x" "filter (\<lambda>obj. Some obj \<noteq> owner) os" "''object_''"]
    by simp
  then have "distinct (map eto ?s2)"
    by (simp only: t2)
  then have d2: "distinct (map triple ?s2)"
    by (rule distinct_by_target)
  have x: "set (map triple ?s1) \<inter> set (map triple ?s2) = {}"
    by (rule typed_disjoint [of _ "{''DELEGATES_TO_HANDLER'', ''CALLS_CLASS''}" _ "{''AFFECTS_OBJECT''}"])
       (auto simp: etype_mk_edge split: if_splits)
  have "filter ?P (fst (create_trigger_relationships tid ?deps owner)) = ?s1 @ ?s2"
    unfolding all filter_append k1 k2 k3 by simp
  moreover have "distinct (map triple (?s1 @ ?s2))"
    using d1 d2 x by (simp only: map_append distinct_append simp_thms)
  ultimately show ?thesis
    by (simp only:)
qed

lemma trigger_pass_distinct:
  "distinct (map triple (filter (\<lambda>e. etype e \<notin> set repeatable_edge_types) (trigger_pass_edges f)))"
proof (cases "read_source f")
  case (Inl a)
  then show ?thesis by (simp add: trigger_pass_edges_def)
next
  case (Inr p)
  obtain code_text md where p: "p = (code_text, md)" by (cases p)
  let ?P = "\<lambda>e. etype e \<notin> set repeatable_edge_types"
  let ?loops = "fst (create_trigger_relationships (''trigger_'' @ src_stem f)
                   (extract_comprehensive_dependencies code_text (src_stem f) ''ApexTrigger'')
                   (extract_trigger_object code_text))"
  let ?hd = "case extract_trigger_object code_text of
             None \<Rightarrow> []
           | Some obj \<Rightarrow>
               if obj \<noteq> []
               then [mk_edge (''object_'' @ obj) (''trigger_'' @ src_stem f) ''HAS_TRIGGER''
                       (''Trigger events: '' @ join '', '' (extract_trigger_events code_text))]
               else []"
  have e: "trigger_pass_edges f = ?hd @ ?loops"
    by (simp add: trigger_pass_edges_def Inr p)
  have dh: "distinct (map triple (filter ?P ?hd))"
    by (simp split: option.splits)
  have dl: "distinct (map triple (filter ?P ?loops))"
    by (rule trigger_loops_distinct)
  have x: "set (map triple (filter ?P ?hd)) \<inter> set (map triple (filter ?P ?loops)) = {}"
  proof (rule typed_disjoint [of _ "{''HAS_TRIGGER''}" _ "- {''HAS_TRIGGER''}"])
    fix e assume "e \<in> set (filter ?P ?hd)"
    then show "etype e \<in> {''HAS_TRIGGER''}"
      by (auto simp: etype_mk_edge split: option.splits if_splits)
  next
    fix e assume "e \<in> set (filter ?P ?loops)"
    then have "e \<in> set ?loops" by simp
    then show "etype e \<in> - {''HAS_TRIGGER''}"
      using trigger_loops_key by auto
  qed simp
  show ?thesis
    unfolding e filter_append map_append distinct_append
    using dh dl x by simp
qed

subsection \<open>The layout and workflow passes\<close>

lemma layout_pass_key:
  assumes "e \<in> set (layout_pass_edges f)"
  shows "(if etype e = ''HAS_LAYOUT'' then eto e else efrom e) = layout_id_of (layout_name_of f)"
    and "etype e \<in> set layout_edge_types"
  using assms
  by (cases "parsed f";
      auto simp: layout_pass_edges_def create_layout_relationships_def mk_edge_def
        layout_edge_types_def split: if_splits)+

lemma distinct_extract_layout_fields: "distinct (extract_layout_fields root)"
  by (simp add: extract_layout_fields_def)

lemma layout_edges_distinct:
  assumes "distinct fs"
  shows "distinct (map triple (filter (\<lambda>e. etype e \<notin> set repeatable_edge_types)
     (create_layout_relationships lid object_name fs rls)))"
proof -
  let ?P = "\<lambda>e. etype e \<notin> set repeatable_edge_types"
  let ?h = "mk_edge (''object_'' @ object_name) lid ''HAS_LAYOUT''
        (''Layout displays '' @ show_nat (length fs) @ '' fields'')"
  let ?s1 = "map (\<lambda>field. mk_edge lid (''field_'' @ object_name @ ''_'' @ field) ''DISPLAYS_FIELD''
              (''Field '' @ field @ '' is displayed on layout'')) fs"
  let ?s2 = "concat (map (\<lambda>rl.
         if rl_object rl \<noteq> []
         then mk_edge lid (''object_'' @ rl_object rl) ''SHOWS_RELATED_LIST''
                (''Layout shows related '' @ rl_object rl @ '' records'')
              # map (\<lambda>field. mk_edge lid (''field_'' @ rl_object rl @ ''_'' @ field)
                       ''DISPLAYS_RELATED_FIELD'' (''Related list displays field '' @ field))
                  (rl_fields rl)
         else []) rls)"
  have all: "create_layout_relationships lid object_name fs rls = ?h # ?s1 @ ?s2"
    by (simp add: create_layout_relationships_def)
  have k1: "filter ?P ?s1 = ?s1"
    by (induction fs) (simp_all add: etype_mk_edge repeatable_edge_types_def)
  have k2: "filter ?P ?s2 = []"
    by (simp only: filter_empty_conv)
       (auto simp: etype_mk_edge repeatable_edge_types_def split: if_splits)
  have kh: "?P ?h" by (simp add: etype_mk_edge repeatable_edge_types_def)
  have t1: "map eto ?s1 = map (\<lambda>field. (''field_'' @ object_name @ ''_'') @ field) fs"
    by (induction fs) (simp_all add: mk_edge_def)
  have "distinct (map (\<lambda>field. (''field_'' @ object_name @ ''_'') @ field) fs)"
    using assms distinct_map_prefix [of "\<lambda>x. x" fs "''field_'' @ object_name @ ''_''"] by simp
  then have "distinct (map eto ?s1)"
    by (simp only: t1)
  then have d1: "distinct (map triple ?s1)"
    by (rule distinct_by_target)
  have "triple ?h \<notin> set (map triple ?s1)"
    by (auto simp: triple_mk_edge)
  then have "distinct (map triple (?h # ?s1))"
    using d1 by simp
  moreover have "filter ?P (create_layout_relationships lid object_name fs rls) = ?h # ?s1"
    unfolding all using kh k1 k2 by simp
  ultimately show ?thesis by simp
qed

lemma layout_pass_distinct:
  "distinct (map triple (filter (\<lambda>e. etype e \<notin> set repeatable_edge_types) (layout_pass_edges f)))"
  by (cases "parsed f")
     (simp_all add: layout_pass_edges_def layout_edges_distinct distinct_extract_layout_fields)

lemma workflow_pass_key:
  assumes "e \<in> set (workflow_pass_edges f)"
  shows "eto e = ''workflow_'' @ workflow_name_of f" and "etype e = ''HAS_WORKFLOW''"
  using assms
  by (cases "parsed f"; simp add: workflow_pass_edges_def structural_edge_def)+

lemma workflow_pass_distinct:
  "distinct (map triple (filter (\<lambda>e. etype e \<notin> set repeatable_edge_types) (workflow_pass_edges f)))"
  by (cases "parsed f") (simp_all add: workflow_pass_edges_def)

subsection \<open>The structural pass\<close>

lemma sub_file_edges_key:
  assumes "e \<in> set (sub_file_edges prefix name_of ty nm fs)"
  shows "efrom e = ''object_'' @ nm" and "etype e = ty"
  using assms by (auto simp: sub_file_edges_def structural_edge_def)

lemma sub_file_edges_distinct:
  assumes "distinct (map name_of fs)"
  shows "distinct (map triple (sub_file_edges prefix name_of ty nm fs))"
proof -
  have "distinct (map name_of (filter parsed_ok fs))"
    using assms by (rule distinct_map_filter)
  then have "distinct (map (\<lambda>f. (prefix @ nm @ ''_'') @ name_of f) (filter parsed_ok fs))"
    by (rule distinct_map_prefix)
  moreover have "map eto (sub_file_edges prefix name_of ty nm fs)
      = map (\<lambda>f. (prefix @ nm @ ''_'') @ name_of f) (filter parsed_ok fs)"
    by (simp add: sub_file_edges_def structural_edge_def)
  ultimately have "distinct (map eto (sub_file_edges prefix name_of ty nm fs))"
    by simp
  then show ?thesis
    by (rule distinct_by_target)
qed

lemma object_pass_key:
  assumes "e \<in> set (object_pass_edges d)"
  shows "efrom e = ''object_'' @ dir_name d" and "etype e \<in> set object_edge_types"
  using assms sub_file_edges_key
  by (auto simp: object_pass_edges_def object_edge_types_def)

lemma object_pass_distinct:
  assumes "distinct (map field_name_of (field_files d))"
    and "distinct (map listview_name_of (listview_files d))"
    and "distinct (map weblink_name_of (weblink_files d))"
  shows "distinct (map triple (filter (\<lambda>e. etype e \<notin> set repeatable_edge_types)
     (object_pass_edges d)))"
proof -
  let ?a = "sub_file_edges ''field_'' field_name_of ''HAS_FIELD'' (dir_name d) (field_files d)"
  let ?b = "sub_file_edges ''listview_'' listview_name_of ''HAS_LISTVIEW'' (dir_name d)
              (listview_files d)"
  let ?c = "sub_file_edges ''weblink_'' weblink_name_of ''HAS_WEBLINK'' (dir_name d)
              (weblink_files d)"
  have da: "distinct (map triple ?a)" using assms(1) by (rule sub_file_edges_distinct)
  have db: "distinct (map triple ?b)" using assms(2) by (rule sub_file_edges_distinct)
  have dc: "distinct (map triple ?c)" using assms(3) by (rule sub_file_edges_distinct)
  have ab: "set (map triple ?a) \<inter> set (map triple ?b) = {}"
    by (rule typed_disjoint [of _ "{''HAS_FIELD''}" _ "{''HAS_LISTVIEW''}"])
       (use sub_file_edges_key in auto)
  have ac: "set (map triple ?a) \<inter> set (map triple ?c) = {}"
    by (rule typed_disjoint [of _ "{''HAS_FIELD''}" _ "{''HAS_WEBLINK''}"])
       (use sub_file_edges_key in auto)
  have bc: "set (map triple ?b) \<inter> set (map triple ?c) = {}"
    by (rule typed_disjoint [of _ "{''HAS_LISTVIEW''}" _ "{''HAS_WEBLINK''}"])
       (use sub_file_edges_key in auto)
  have "distinct (map triple (object_pass_edges d))"
    unfolding object_pass_edges_def map_append distinct_append set_append
    using da db dc ab ac bc by blast
  then show ?thesis
    by (simp add: distinct_map_filter)
qed

subsection \<open>The whole run\<close>

lemma distinct_typed_append:
  assumes "distinct (map triple xs)" and "distinct (map triple ys)"
    and "\<And>e. e \<in> set xs \<Longrightarrow> etype e \<in> S" and "\<And>e. e \<in> set ys \<Longrightarrow> etype e \<in> T"
    and "S \<inter> T = {}"
  shows "distinct (map triple (xs @ ys))"
proof -
  have "set (map triple xs) \<inter> set (map triple ys) = {}"
    using assms(3,4,5) by (rule typed_disjoint)
  then show ?thesis
    using assms(1,2) by simp
qed

lemma typed_append:
  assumes "\<And>e. e \<in> set xs \<Longrightarrow> etype e \<in> S" and "\<And>e. e \<in> set ys \<Longrightarrow> etype e \<in> T"
    and "e \<in> set (xs @ ys)"
  shows "etype e \<in> S \<union> T"
  using assms by auto

lemma object_passes_distinct:
  assumes "distinct (map dir_name ds)"
    and "list_all (\<lambda>d. distinct (map field_name_of (field_files d))
                     \<and> distinct (map listview_name_of (listview_files d))
                     \<and> distinct (map weblink_name_of (weblink_files d))) ds"
  shows "distinct (map triple (filter (\<lambda>e. etype e \<notin> set repeatable_edge_types)
     (concat (map object_pass_edges ds))))"
  unfolding filter_concat_map
proof (rule distinct_concat_keyed [where k = "\<lambda>d. ''object_'' @ dir_name d" and key = fst])
  show "distinct (map (\<lambda>d. ''object_'' @ dir_name d) ds)"
    using assms(1) by (rule distinct_map_prefix)
next
  fix d assume "d \<in> set ds"
  then have "distinct (map field_name_of (field_files d))"
    and "distinct (map listview_name_of (listview_files d))"
    and "distinct (map weblink_name_of (weblink_files d))"
    using assms(2) by (simp_all add: list_all_iff)
  then show "distinct (map triple (filter (\<lambda>e. etype e \<notin> set repeatable_edge_types)
     (object_pass_edges d)))"
    by (rule object_pass_distinct)
next
  fix d e assume "d \<in> set ds" and "e \<in> set (filter (\<lambda>e. etype e \<notin> set repeatable_edge_types)
     (object_pass_edges d))"
  then have "e \<in> set (object_pass_edges d)" by simp
  then have "efrom e = ''object_'' @ dir_name d" by (rule object_pass_key(1))
  then show "fst (triple e) = ''object_'' @ dir_name d" by (simp add: triple_def)
qed

lemma layout_passes_distinct:
  assumes "distinct (map (\<lambda>f. layout_id_of (layout_name_of f)) fs)"
  shows "distinct (map triple (filter (\<lambda>e. etype e \<notin> set repeatable_edge_types)
     (concat (map layout_pass_edges fs))))"
  unfolding filter_concat_map
proof (rule distinct_concat_keyed [where k = "\<lambda>f. layout_id_of (layout_name_of f)"
      and key = "\<lambda>t. if snd (snd t) = ''HAS_LAYOUT'' then fst (snd t) else fst t"])
  show "distinct (map (\<lambda>f. layout_id_of (layout_name_of f)) fs)"
    by (rule assms)
next
  fix f
  show "distinct (map triple (filter (\<lambda>e. etype e \<notin> set repeatable_edge_types)
     (layout_pass_edges f)))"
    by (rule layout_pass_distinct)
next
  fix f e assume "e \<in> set (filter (\<lambda>e. etype e \<notin> set repeatable_edge_types)
     (layout_pass_edges f))"
  then have "e \<in> set (layout_pass_edges f)" by simp
  then have "(if etype e = ''HAS_LAYOUT'' then eto e else efrom e)
      = layout_id_of (layout_name_of f)"
    by (rule layout_pass_key(1))
  then show "(if snd (snd (triple e)) = ''HAS_LAYOUT'' then fst (snd (triple e))
      else fst (triple e)) = layout_id_of (layout_name_of f)"
    by (simp only: triple_def fst_conv snd_conv)
qed

lemma class_passes_distinct:
  assumes "distinct (map src_stem fs)"
  shows "distinct (map triple (filter (\<lambda>e. etype e \<notin> set repeatable_edge_types)
     (concat (map class_pass_edges fs))))"
  unfolding filter_concat_map
proof (rule distinct_concat_keyed [where k = "\<lambda>f. ''class_'' @ src_stem f" and key = fst])
  show "distinct (map (\<lambda>f. ''class_'' @ src_stem f) fs)"
    using assms by (rule distinct_map_prefix)
next
  fix f
  show "distinct (map triple (filter (\<lambda>e. etype e \<notin> set repeatable_edge_types)
     (class_pass_edges f)))"
    by (rule class_pass_distinct)
next
  fix f e assume "e \<in> set (filter (\<lambda>e. etype e \<notin> set repeatable_edge_types)
     (class_pass_edges f))"
  then have "e \<in> set (class_pass_edges f)" by simp
  then have "efrom e = ''class_'' @ src_stem f" by (rule class_pass_from)
  then show "fst (triple e) = ''class_'' @ src_stem f" by (simp add: triple_def)
qed

lemma trigger_passes_distinct:
  assumes "distinct (map src_stem fs)"
  shows "distinct (map triple (filter (\<lambda>e. etype e \<notin> set repeatable_edge_types)
     (concat (map trigger_pass_edges fs))))"
  unfolding filter_concat_map
proof (rule distinct_concat_keyed [where k = "\<lambda>f. ''trigger_'' @ src_stem f"
      and key = "\<lambda>t. if snd (snd t) = ''HAS_TRIGGER'' then fst (snd t) else fst t"])
  show "distinct (map (\<lambda>f. ''trigger_'' @ src_stem f) fs)"
    using assms by (rule distinct_map_prefix)
next
  fix f
  show "distinct (map triple (filter (\<lambda>e. etype e \<notin> set repeatable_edge_types)
     (trigger_pass_edges f)))"
    by (rule trigger_pass_distinct)
next
  fix f e assume "e \<in> set (filter (\<lambda>e. etype e \<notin> set repeatable_edge_types)
     (trigger_pass_edges f))"
  then have "e \<in> set (trigger_pass_edges f)" by simp
  then have "(if etype e = ''HAS_TRIGGER'' then eto e else efrom e) = ''trigger_'' @ src_stem f"
    by (rule trigger_pass_key(1))
  then show "(if snd (snd (triple e)) = ''HAS_TRIGGER'' then fst (snd (triple e))
      else fst (triple e)) = ''trigger_'' @ src_stem f"
    by (simp only: triple_def fst_conv snd_conv)
qed

lemma workflow_passes_distinct:
  assumes "distinct (map workflow_name_of fs)"
  shows "distinct (map triple (filter (\<lambda>e. etype e \<notin> set repeatable_edge_types)
     (concat (map workflow_pass_edges fs))))"
  unfolding filter_concat_map
proof (rule distinct_concat_keyed [where k = "\<lambda>f. ''workflow_'' @ workflow_name_of f"
      and key = "\<lambda>t. fst (snd t)"])
  show "distinct (map (\<lambda>f. ''workflow_'' @ workflow_name_of f) fs)"
    using assms by (rule distinct_map_prefix)
next
  fix f
  show "distinct (map triple (filter (\<lambda>e. etype e \<notin> set repeatable_edge_types)
     (workflow_pass_edges f)))"
    by (rule workflow_pass_distinct)
next
  fix f e assume "e \<in> set (filter (\<lambda>e. etype e \<notin> set repeatable_edge_types)
     (workflow_pass_edges f))"
  then have "e \<in> set (workflow_pass_edges f)" by simp
  then have "eto e = ''workflow_'' @ workflow_name_of f" by (rule workflow_pass_key(1))
  then show "fst (snd (triple e)) = ''workflow_'' @ workflow_name_of f" by (simp add: triple_def)
qed

lemma passes_types:
  assumes "\<And>x e. e \<in> set (g x) \<Longrightarrow> etype e \<in> S"
    and "e \<in> set (filter P (concat (map g xs)))"
  shows "etype e \<in> S"
  using assms by auto

text \<open>
  C1, as the code has it. \<open>self.relationships\<close> is a list that every pass appends to, and
  nothing removes a repeated triple, so the edges of a run are not a set. What the code keeps
  is this: in a run of a fresh converter over components whose ids differ (\<open>distinct_ids\<close>),
  the edges of every type other than \<open>CALLS_METHOD\<close>, \<open>ACCESSES_FIELD\<close>,
  \<open>CALLS_WEBSERVICE\<close>, \<open>MODIFIES_FIELD\<close>, \<open>SHOWS_RELATED_LIST\<close> and
  \<open>DISPLAYS_RELATED_FIELD\<close> have pairwise different \<open>(from, to, type)\<close> triples, over all
  passes: the structural edges, \<open>HAS_LAYOUT\<close>
  and \<open>DISPLAYS_FIELD\<close>, the six class edge types whose target is an entry of a category
  list, \<open>HAS_TRIGGER\<close>, \<open>DELEGATES_TO_HANDLER\<close>, \<open>CALLS_CLASS\<close>, \<open>AFFECTS_OBJECT\<close> and
  \<open>HAS_WORKFLOW\<close>. Each of the six types left out, and the condition on the ids, is needed:
  the examples after the theorem repeat a triple for each of them.
\<close>

theorem run_edges_distinct:
  assumes "distinct_ids tree"
  shows "distinct (map triple (filter (\<lambda>e. etype e \<notin> set repeatable_edge_types)
     (all_relationships (fst (convert_all_metadata tree init_converter)))))"
proof -
  let ?P = "\<lambda>e. etype e \<notin> set repeatable_edge_types"
  let ?O = "filter ?P (concat (map object_pass_edges (object_dirs tree)))"
  let ?L = "filter ?P (concat (map layout_pass_edges (layout_files tree)))"
  let ?C = "filter ?P (concat (map class_pass_edges (class_files tree)))"
  let ?T = "filter ?P (concat (map trigger_pass_edges (trigger_files tree)))"
  let ?W = "filter ?P (concat (map workflow_pass_edges (workflow_files tree)))"
  have ids: "distinct (map dir_name (object_dirs tree))"
    "list_all (\<lambda>d. distinct (map field_name_of (field_files d))
                     \<and> distinct (map listview_name_of (listview_files d))
                     \<and> distinct (map weblink_name_of (weblink_files d))) (object_dirs tree)"
    "distinct (map (\<lambda>f. layout_id_of (layout_name_of f)) (layout_files tree))"
    "distinct (map src_stem (class_files tree))"
    "distinct (map src_stem (trigger_files tree))"
    "distinct (map workflow_name_of (workflow_files tree))"
    using assms by (simp_all add: distinct_ids_def)
  have dO: "distinct (map triple ?O)" using ids(1,2) by (rule object_passes_distinct)
  have dL: "distinct (map triple ?L)" using ids(3) by (rule layout_passes_distinct)
  have dC: "distinct (map triple ?C)" using ids(4) by (rule class_passes_distinct)
  have dT: "distinct (map triple ?T)" using ids(5) by (rule trigger_passes_distinct)
  have dW: "distinct (map triple ?W)" using ids(6) by (rule workflow_passes_distinct)
  have tO: "etype e \<in> set object_edge_types" if "e \<in> set ?O" for e
    using object_pass_key(2) that by (rule passes_types)
  have tL: "etype e \<in> set layout_edge_types" if "e \<in> set ?L" for e
    using layout_pass_key(2) that by (rule passes_types)
  have tC: "etype e \<in> set class_edge_types" if "e \<in> set ?C" for e
    using class_pass_types that by (rule passes_types)
  have tT: "etype e \<in> set trigger_edge_types" if "e \<in> set ?T" for e
    using trigger_pass_key(2) that by (rule passes_types)
  have tW: "etype e \<in> {''HAS_WORKFLOW''}" if "e \<in> set ?W" for e
  proof (rule passes_types [OF _ that])
    fix f e assume "e \<in> set (workflow_pass_edges f)"
    then show "etype e \<in> {''HAS_WORKFLOW''}"
      using workflow_pass_key(2) by simp
  qed
  have d4: "distinct (map triple (?T @ ?W))"
    using dT dW tT tW
    by (rule distinct_typed_append) (auto simp: trigger_edge_types_def)
  have t4: "etype e \<in> set trigger_edge_types \<union> {''HAS_WORKFLOW''}" if "e \<in> set (?T @ ?W)" for e
    using tT tW that by (rule typed_append)
  have d3: "distinct (map triple (?C @ ?T @ ?W))"
    using dC d4 tC t4
    by (rule distinct_typed_append) (auto simp: class_edge_types_def trigger_edge_types_def)
  have t3: "etype e \<in> set class_edge_types \<union> (set trigger_edge_types \<union> {''HAS_WORKFLOW''})"
    if "e \<in> set (?C @ ?T @ ?W)" for e
    using tC t4 that by (rule typed_append)
  have d2: "distinct (map triple (?L @ ?C @ ?T @ ?W))"
    using dL d3 tL t3
    by (rule distinct_typed_append)
       (auto simp: layout_edge_types_def class_edge_types_def trigger_edge_types_def)
  have t2: "etype e \<in> set layout_edge_types
      \<union> (set class_edge_types \<union> (set trigger_edge_types \<union> {''HAS_WORKFLOW''}))"
    if "e \<in> set (?L @ ?C @ ?T @ ?W)" for e
    using tL t3 that by (rule typed_append)
  have d1: "distinct (map triple (?O @ ?L @ ?C @ ?T @ ?W))"
    using dO d2 tO t2
    by (rule distinct_typed_append)
       (auto simp: object_edge_types_def layout_edge_types_def class_edge_types_def
          trigger_edge_types_def)
  have "filter ?P (all_relationships (fst (convert_all_metadata tree init_converter)))
      = ?O @ ?L @ ?C @ ?T @ ?W"
    by (simp add: convert_all_metadata_edges init_converter_def)
  then show ?thesis
    using d1 by (simp only:)
qed

text \<open>
  A run over an object with three field files, a layout with two related lists of one object
  and a class that calls two methods of one other class: the ids differ, the run repeats three
  triples, and the edges of the other types are pairwise different.
\<close>

theorem run_edges_distinct_witness:
  "distinct_ids sample_tree
   \<and> map triple (all_relationships (fst (convert_all_metadata sample_tree init_converter)))
     = [(''object_Account'', ''field_Account_Name'', ''HAS_FIELD''),
        (''object_Account'', ''field_Account_Industry'', ''HAS_FIELD''),
        (''object_Account'', ''layout_Account-Main'', ''HAS_LAYOUT''),
        (''layout_Account-Main'', ''object_Contact'', ''SHOWS_RELATED_LIST''),
        (''layout_Account-Main'', ''field_Contact_Name'', ''DISPLAYS_RELATED_FIELD''),
        (''layout_Account-Main'', ''object_Contact'', ''SHOWS_RELATED_LIST''),
        (''layout_Account-Main'', ''field_Contact_Name'', ''DISPLAYS_RELATED_FIELD''),
        (''class_Xy'', ''class_Ab'', ''DEPENDS_ON_CLASS''),
        (''class_Xy'', ''class_Ab'', ''CALLS_METHOD''),
        (''class_Xy'', ''class_Ab'', ''CALLS_METHOD'')]
   \<and> distinct (map triple (filter (\<lambda>e. etype e \<notin> set repeatable_edge_types)
         (all_relationships (fst (convert_all_metadata sample_tree init_converter)))))"
proof -
  have ids: "distinct_ids sample_tree"
    by code_simp
  have run: "map triple (all_relationships (fst (convert_all_metadata sample_tree init_converter)))
     = [(''object_Account'', ''field_Account_Name'', ''HAS_FIELD''),
        (''object_Account'', ''field_Account_Industry'', ''HAS_FIELD''),
        (''object_Account'', ''layout_Account-Main'', ''HAS_LAYOUT''),
        (''layout_Account-Main'', ''object_Contact'', ''SHOWS_RELATED_LIST''),
        (''layout_Account-Main'', ''field_Contact_Name'', ''DISPLAYS_RELATED_FIELD''),
        (''layout_Account-Main'', ''object_Contact'', ''SHOWS_RELATED_LIST''),
        (''layout_Account-Main'', ''field_Contact_Name'', ''DISPLAYS_RELATED_FIELD''),
        (''class_Xy'', ''class_Ab'', ''DEPENDS_ON_CLASS''),
        (''class_Xy'', ''class_Ab'', ''CALLS_METHOD''),
        (''class_Xy'', ''class_Ab'', ''CALLS_METHOD'')]"
    by code_simp
  show ?thesis
    by (intro conjI ids run run_edges_distinct [OF ids])
qed

text \<open>
  C1 as stated fails: \<open>self.relationships\<close> is a list that every pass appends to, and nothing
  removes a repeated triple. A class that calls two methods of one other class gets two
  \<open>CALLS_METHOD\<close> edges with the same \<open>(from, to, type)\<close>.
\<close>

theorem duplicate_triple_counterexample:
  "map triple (all_relationships (fst (convert_all_metadata two_calls_tree init_converter)))
     = [(''class_Xy'', ''class_Ab'', ''DEPENDS_ON_CLASS''),
        (''class_Xy'', ''class_Ab'', ''CALLS_METHOD''),
        (''class_Xy'', ''class_Ab'', ''CALLS_METHOD'')]
   \<and> \<not> distinct (map triple (all_relationships (fst (convert_all_metadata two_calls_tree
          init_converter))))"
  by code_simp

subsection \<open>Repeated triples of the other edge types\<close>

text \<open>
  The other five edge types repeat a triple as well. The fields \<open>A.B_C\<close> and \<open>A_B.C\<close> get
  the id \<open>field_A_B_C\<close> both, in a class (\<open>ACCESSES_FIELD\<close>) and in a trigger
  (\<open>MODIFIES_FIELD\<close>); the endpoints \<open>http:\<close> and \<open>http/\<close> get the id \<open>webservice_http_\<close>
  both; a layout that lists the related records of one object twice gets two
  \<open>SHOWS_RELATED_LIST\<close> and two \<open>DISPLAYS_RELATED_FIELD\<close> edges with the same triple; and two
  layout files whose names differ in a blank and an underscore get the same id, hence the same
  \<open>HAS_LAYOUT\<close> edge.
\<close>

lemma single_class_run:
  "all_relationships (fst (convert_all_metadata
       \<lparr>object_dirs = [], layout_files = [],
        class_files = [\<lparr>src_path = p, src_stem = n, src_text = Some (Inr body), src_meta = None\<rparr>],
        trigger_files = [], workflow_files = []\<rparr> init_converter))
     = fst (create_class_relationships (''class_'' @ n)
              (extract_comprehensive_dependencies body n ''ApexClass''))"
  by (simp add: convert_all_metadata_edges init_converter_def class_pass_edges_def read_source_def)

lemma single_trigger_run:
  "filter (\<lambda>e. etype e = ''MODIFIES_FIELD'') (all_relationships (fst (convert_all_metadata
       \<lparr>object_dirs = [], layout_files = [], class_files = [],
        trigger_files = [\<lparr>src_path = p, src_stem = n, src_text = Some (Inr body),
           src_meta = None\<rparr>],
        workflow_files = []\<rparr> init_converter)))
     = filter (\<lambda>e. etype e = ''MODIFIES_FIELD'')
         (fst (create_trigger_relationships (''trigger_'' @ n)
              (extract_comprehensive_dependencies body n ''ApexTrigger'')
              (extract_trigger_object body)))"
  by (simp add: convert_all_metadata_edges init_converter_def trigger_pass_edges_def
      read_source_def etype_mk_edge split: option.splits)

lemma two_queries_fields:
  "map_of (extract_comprehensive_dependencies two_queries n k) ''fields''
     = Some [''A.B_C'', ''A_B.C'']"
proof -
  have a: "concat (map soql_fields (all_matches soql_patterns two_queries))
      = [''A.B_C'', ''A_B.C'']"
    by code_simp
  have b: "strs (all_matches field_patterns two_queries) = []"
    by code_simp
  show ?thesis
    by (simp add: map_of_extract collect_fields a b clean_def)
qed

lemma two_endpoints_services:
  "map_of (extract_comprehensive_dependencies two_endpoints n k) ''web_services''
     = Some [''http:'', ''http/'']"
proof -
  have a: "strs (all_matches webservice_patterns two_endpoints) = [''http:'', ''http/'']"
    by code_simp
  show ?thesis
    by (simp add: map_of_extract collect_dependencies_def a clean_def)
qed

lemma class_calls_webservice:
  assumes "map_of (extract_comprehensive_dependencies src n k) ''web_services'' = Some ws"
  shows "filter (\<lambda>e. etype e = ''CALLS_WEBSERVICE'')
           (fst (create_class_relationships cid (extract_comprehensive_dependencies src n k)))
     = concat (map (\<lambda>service.
          if starts_with ''http'' service
          then [mk_edge cid
                  (''webservice_'' @ replace_str '':'' ''_'' (replace_str ''/'' ''_'' service))
                  ''CALLS_WEBSERVICE'' (''Makes HTTP callout to '' @ service)]
          else []) ws)"
proof -
  let ?deps = "extract_comprehensive_dependencies src n k"
  let ?P = "\<lambda>e. etype e = ''CALLS_WEBSERVICE''"
  let ?ls = "class_loops cid"
  obtain os cs fs ms ss ws' ts ls rs where key:
    "map_of ?deps ''objects'' = Some os" "map_of ?deps ''classes'' = Some cs"
    "map_of ?deps ''fields'' = Some fs" "map_of ?deps ''methods'' = Some ms"
    "map_of ?deps ''custom_settings'' = Some ss" "map_of ?deps ''web_services'' = Some ws'"
    "map_of ?deps ''email_templates'' = Some ts" "map_of ?deps ''custom_labels'' = Some ls"
    "map_of ?deps ''static_resources'' = Some rs"
    using extract_all_keys [of src n k] by blast
  have ws: "ws' = ws" using key(6) assms by simp
  let ?s1 = "map (\<lambda>x. mk_edge cid (''object_'' @ x) ''USES_OBJECT''
               ''References object in SOQL/DML operations'') os"
  let ?s2 = "map (\<lambda>x. mk_edge cid (''class_'' @ x) ''DEPENDS_ON_CLASS''
               ''Calls methods or instantiates class'') cs"
  let ?s3 = "concat (map (\<lambda>field.
          if has_dot field
          then (case split1 CHR ''.'' field of (obj_name, field_name) \<Rightarrow>
                  [mk_edge cid (''field_'' @ obj_name @ ''_'' @ field_name) ''ACCESSES_FIELD''
                     (''Accesses field '' @ field_name @ '' on '' @ obj_name)])
          else []) fs)"
  let ?s4 = "concat (map (\<lambda>method.
          if has_dot method
          then (case split1 CHR ''.'' method of (cls_name, method_name) \<Rightarrow>
                  [mk_edge cid (''class_'' @ cls_name) ''CALLS_METHOD''
                     (''Calls method '' @ method_name)])
          else []) ms)"
  let ?s5 = "map (\<lambda>x. mk_edge cid (''object_'' @ x) ''USES_CUSTOM_SETTING''
               ''Accesses custom setting or metadata'') ss"
  let ?s6 = "concat (map (\<lambda>service.
          if starts_with ''http'' service
          then [mk_edge cid
                  (''webservice_'' @ replace_str '':'' ''_'' (replace_str ''/'' ''_'' service))
                  ''CALLS_WEBSERVICE'' (''Makes HTTP callout to '' @ service)]
          else []) ws)"
  let ?s7 = "map (\<lambda>x. mk_edge cid (''emailtemplate_'' @ x) ''USES_EMAIL_TEMPLATE''
               ''Uses email template for messaging'') ts"
  let ?s8 = "map (\<lambda>x. mk_edge cid (''customlabel_'' @ x) ''USES_CUSTOM_LABEL''
               ''References custom label'') ls"
  let ?s9 = "map (\<lambda>x. mk_edge cid (''staticresource_'' @ x) ''USES_STATIC_RESOURCE''
               ''References static resource'') rs"
  have all: "fst (create_class_relationships cid ?deps)
      = ?s1 @ ?s2 @ ?s3 @ ?s4 @ ?s5 @ ?s6 @ ?s7 @ ?s8 @ ?s9"
    unfolding create_class_relationships_def class_loops_def
    by (simp only: run_loops_Some [OF key(1)] run_loops_Some [OF key(2)] run_loops_Some [OF key(3)]
        run_loops_Some [OF key(4)] run_loops_Some [OF key(5)]
        run_loops_Some [OF key(6) [unfolded ws]]
        run_loops_Some [OF key(7)] run_loops_Some [OF key(8)] run_loops_Some [OF key(9)]
        run_loops.simps(1) fst_conv append_Nil2)
  have k1: "filter ?P ?s1 = []" by (simp add: filter_empty_conv etype_mk_edge)
  have k2: "filter ?P ?s2 = []" by (simp add: filter_empty_conv etype_mk_edge)
  have k5: "filter ?P ?s5 = []" by (simp add: filter_empty_conv etype_mk_edge)
  have k7: "filter ?P ?s7 = []" by (simp add: filter_empty_conv etype_mk_edge)
  have k8: "filter ?P ?s8 = []" by (simp add: filter_empty_conv etype_mk_edge)
  have k9: "filter ?P ?s9 = []" by (simp add: filter_empty_conv etype_mk_edge)
  have k3: "filter ?P ?s3 = []"
    by (simp only: filter_empty_conv) (auto simp: etype_mk_edge split: if_splits prod.splits)
  have k4: "filter ?P ?s4 = []"
    by (simp only: filter_empty_conv) (auto simp: etype_mk_edge split: if_splits prod.splits)
  have k6: "filter ?P ?s6 = ?s6"
    by (simp only: filter_id_conv) (auto simp: etype_mk_edge split: if_splits)
  show ?thesis
    unfolding all filter_append k1 k2 k3 k4 k5 k6 k7 k8 k9 by simp
qed

lemma accesses_field_repeated:
  "map triple (filter (\<lambda>e. etype e = ''ACCESSES_FIELD'')
     (all_relationships (fst (convert_all_metadata two_queries_tree init_converter))))
     = [(''class_Xy'', ''field_A_B_C'', ''ACCESSES_FIELD''),
        (''class_Xy'', ''field_A_B_C'', ''ACCESSES_FIELD'')]"
proof -
  let ?deps = "extract_comprehensive_dependencies two_queries ''Xy'' ''ApexClass''"
  obtain os cs where key: "map_of ?deps ''objects'' = Some os" "map_of ?deps ''classes'' = Some cs"
    using extract_all_keys [of two_queries "''Xy''" "''ApexClass''"] by blast
  have "map triple (filter (\<lambda>e. etype e = ''ACCESSES_FIELD'')
      (fst (create_class_relationships ''class_Xy'' ?deps)))
      = [(''class_Xy'', ''field_A_B_C'', ''ACCESSES_FIELD''),
         (''class_Xy'', ''field_A_B_C'', ''ACCESSES_FIELD'')]"
    unfolding class_accesses_field [OF key two_queries_fields] by code_simp
  then show ?thesis
    by (simp add: two_queries_tree_def single_class_run)
qed

lemma modifies_field_repeated:
  "map triple (filter (\<lambda>e. etype e = ''MODIFIES_FIELD'')
     (all_relationships (fst (convert_all_metadata two_queries_trigger_tree init_converter))))
     = [(''trigger_T'', ''field_A_B_C'', ''MODIFIES_FIELD''),
        (''trigger_T'', ''field_A_B_C'', ''MODIFIES_FIELD'')]"
proof -
  let ?deps = "extract_comprehensive_dependencies two_queries ''T'' ''ApexTrigger''"
  obtain os cs where key: "map_of ?deps ''objects'' = Some os" "map_of ?deps ''classes'' = Some cs"
    using extract_all_keys [of two_queries "''T''" "''ApexTrigger''"] by blast
  have "map triple (filter (\<lambda>e. etype e = ''MODIFIES_FIELD'')
      (fst (create_trigger_relationships ''trigger_T'' ?deps owner)))
      = [(''trigger_T'', ''field_A_B_C'', ''MODIFIES_FIELD''),
         (''trigger_T'', ''field_A_B_C'', ''MODIFIES_FIELD'')]" for owner
    unfolding trigger_modifies_field [OF key two_queries_fields] by code_simp
  then show ?thesis
    by (simp add: two_queries_trigger_tree_def single_trigger_run)
qed

lemma calls_webservice_repeated:
  "map triple (filter (\<lambda>e. etype e = ''CALLS_WEBSERVICE'')
     (all_relationships (fst (convert_all_metadata two_endpoints_tree init_converter))))
     = [(''class_Zw'', ''webservice_http_'', ''CALLS_WEBSERVICE''),
        (''class_Zw'', ''webservice_http_'', ''CALLS_WEBSERVICE'')]"
proof -
  let ?deps = "extract_comprehensive_dependencies two_endpoints ''Zw'' ''ApexClass''"
  have "map triple (filter (\<lambda>e. etype e = ''CALLS_WEBSERVICE'')
      (fst (create_class_relationships ''class_Zw'' ?deps)))
      = [(''class_Zw'', ''webservice_http_'', ''CALLS_WEBSERVICE''),
         (''class_Zw'', ''webservice_http_'', ''CALLS_WEBSERVICE'')]"
    unfolding class_calls_webservice [OF two_endpoints_services] by code_simp
  then show ?thesis
    by (simp add: two_endpoints_tree_def single_class_run)
qed

lemma related_list_repeated:
  "map triple (all_relationships (fst (convert_all_metadata two_lists_tree init_converter)))
     = [(''object_Account'', ''layout_Account-Main'', ''HAS_LAYOUT''),
        (''layout_Account-Main'', ''object_Contact'', ''SHOWS_RELATED_LIST''),
        (''layout_Account-Main'', ''field_Contact_Name'', ''DISPLAYS_RELATED_FIELD''),
        (''layout_Account-Main'', ''object_Contact'', ''SHOWS_RELATED_LIST''),
        (''layout_Account-Main'', ''field_Contact_Name'', ''DISPLAYS_RELATED_FIELD'')]"
  by code_simp

lemma same_id_repeated:
  "map stem (layout_files same_id_tree)
     = [''Account-My Layout.layout-meta'', ''Account-My_Layout.layout-meta'']
   \<and> map triple (all_relationships (fst (convert_all_metadata same_id_tree init_converter)))
     = [(''object_Account'', ''layout_Account-My_Layout'', ''HAS_LAYOUT''),
        (''object_Account'', ''layout_Account-My_Layout'', ''HAS_LAYOUT'')]"
  by code_simp

section \<open>Scenario A\<close>

lemma scenario_a_soql: "all_matches soql_patterns scenario_a = []"
  by code_simp

lemma scenario_a_dml: "all_matches dml_patterns scenario_a = []"
  by code_simp

lemma scenario_a_field: "all_matches field_patterns scenario_a = []"
  by code_simp

lemma scenario_a_class: "all_matches class_patterns scenario_a = [MTuple [''AccountHandler'', ''run'']]"
  by code_simp

lemma scenario_a_object: "extract_trigger_object scenario_a = Some ''Account''"
  by code_simp

lemma scenario_a_events: "extract_trigger_events scenario_a = [''before insert'']"
  by code_simp

lemma scenario_a_categories:
  "map_of (extract_comprehensive_dependencies scenario_a n k) ''classes'' = Some [''AccountHandler'']"
  "map_of (extract_comprehensive_dependencies scenario_a n k) ''methods'' = Some [''AccountHandler.run'']"
  "map_of (extract_comprehensive_dependencies scenario_a n k) ''objects'' = Some []"
  "map_of (extract_comprehensive_dependencies scenario_a n k) ''fields'' = Some []"
  by (simp_all add: map_of_extract collect_classes collect_methods collect_objects collect_fields
      scenario_a_soql scenario_a_dml scenario_a_field scenario_a_class
      class_names_def method_names_def strs_def clean_def system_classes_def)

lemma scenario_a_trigger_edges:
  "create_trigger_relationships ''trigger_T'' (extract_comprehensive_dependencies scenario_a n k)
      (Some ''Account'')
   = ([mk_edge ''trigger_T'' ''class_AccountHandler'' ''DELEGATES_TO_HANDLER''
         ''Trigger delegates business logic to handler class''], None)"
  by (simp add: create_trigger_relationships_def trigger_loops_def scenario_a_categories)

lemma scenario_a_relationships:
  "relationships (snd (process_trigger scenario_a_file init_converter))
     = [mk_edge ''object_Account'' ''trigger_T'' ''HAS_TRIGGER'' ''Trigger events: before insert'',
        mk_edge ''trigger_T'' ''class_AccountHandler'' ''DELEGATES_TO_HANDLER''
          ''Trigger delegates business logic to handler class'']"
proof -
  have r: "read_source scenario_a_file = Inr (scenario_a, JDict [])"
    by (simp add: read_source_def scenario_a_file_def)
  have s: "src_stem scenario_a_file = ''T''" by (simp add: scenario_a_file_def)
  show ?thesis
    using scenario_a_trigger_edges [of "''T''" "''ApexTrigger''"]
    by (simp add: process_trigger_def r s scenario_a_object scenario_a_events Let_def
        append_edges_def init_converter_def)
qed

text \<open>
  C2, as the code has it. For the source text of Scenario A, processed as the trigger \<open>T\<close>,
  the extractor recovers the owning object \<open>Account\<close>, the events \<open>before insert\<close>, the
  class \<open>AccountHandler\<close> and the method \<open>AccountHandler.run\<close>, and the edges of the trigger
  are \<open>HAS_TRIGGER\<close> from \<open>object_Account\<close> to \<open>trigger_T\<close> and \<open>DELEGATES_TO_HANDLER\<close> from
  \<open>trigger_T\<close> to \<open>class_AccountHandler\<close>, and no other: the method stays in the \<open>methods\<close>
  category of the record.
\<close>

theorem scenario_a_holds:
  "extract_trigger_object scenario_a = Some ''Account''
   \<and> extract_trigger_events scenario_a = [''before insert'']
   \<and> map_of (extract_comprehensive_dependencies scenario_a ''T'' ''ApexTrigger'') ''classes''
       = Some [''AccountHandler'']
   \<and> map_of (extract_comprehensive_dependencies scenario_a ''T'' ''ApexTrigger'') ''methods''
       = Some [''AccountHandler.run'']
   \<and> relationships (snd (process_trigger scenario_a_file init_converter))
       = [mk_edge ''object_Account'' ''trigger_T'' ''HAS_TRIGGER'' ''Trigger events: before insert'',
          mk_edge ''trigger_T'' ''class_AccountHandler'' ''DELEGATES_TO_HANDLER''
            ''Trigger delegates business logic to handler class'']"
  using scenario_a_object scenario_a_events scenario_a_categories(1,2) scenario_a_relationships
  by simp

text \<open>
  C2 as stated fails in its last edge: \<open>_create_trigger_relationships\<close> has no loop over
  \<open>methods\<close>, so no \<open>CALLS_METHOD\<close> edge is made for a trigger.
\<close>

theorem scenario_a_no_calls_method_counterexample:
  "map etype (relationships (snd (process_trigger scenario_a_file init_converter)))
     = [''HAS_TRIGGER'', ''DELEGATES_TO_HANDLER'']
   \<and> ''CALLS_METHOD'' \<notin> set (map etype (relationships (snd (process_trigger scenario_a_file
          init_converter))))"
  by (simp add: scenario_a_relationships etype_mk_edge)

end
